theory Spec2Isabelle
  imports Main "HOL-Library.Sublist"
begin

section \<open>Text primitives of the host language\<close>

text \<open>
  The extension is TypeScript. Its strings are modelled as \<open>string\<close> (lists of
  \<open>char\<close>), read as code units below 256 (Latin-1). The character classes are the ones
  the regular expressions of the source use without the unicode flag.
\<close>

definition code :: "char \<Rightarrow> nat" where
  "code c = of_char c"

text \<open>\<open>\s\<close> and the characters removed by \<open>trim()\<close>: tab, line feed, vertical tab, form feed,
  carriage return, space and the no-break space.\<close>

definition is_space :: "char \<Rightarrow> bool" where
  "is_space c = (code c = 9 \<or> code c = 10 \<or> code c = 11 \<or> code c = 12 \<or> code c = 13
     \<or> code c = 32 \<or> code c = 160)"

definition is_upper :: "char \<Rightarrow> bool" where
  "is_upper c = (65 \<le> code c \<and> code c \<le> 90)"

definition is_lower :: "char \<Rightarrow> bool" where
  "is_lower c = (97 \<le> code c \<and> code c \<le> 122)"

definition is_digit :: "char \<Rightarrow> bool" where
  "is_digit c = (48 \<le> code c \<and> code c \<le> 57)"

text \<open>\<open>\w\<close> is \<open>[A-Za-z0-9_]\<close>.\<close>

definition is_word :: "char \<Rightarrow> bool" where
  "is_word c = (is_upper c \<or> is_lower c \<or> is_digit c \<or> c = CHR ''_'')"

text \<open>The line terminators after which \<open>^\<close> matches under the \<open>m\<close> flag.\<close>

definition is_line_terminator :: "char \<Rightarrow> bool" where
  "is_line_terminator c = (code c = 10 \<or> code c = 13)"

text \<open>\<open>String.prototype.toLowerCase\<close> on code units below 256: the letters A to Z and the
  Latin-1 capitals (all of 192 to 222 but the multiplication sign 215) move up by 32.\<close>

definition lower_char :: "char \<Rightarrow> char" where
  "lower_char c =
     (if is_upper c \<or> (192 \<le> code c \<and> code c \<le> 222 \<and> code c \<noteq> 215)
      then char_of (code c + 32) else c)"

definition toLowerCase :: "string \<Rightarrow> string" where
  "toLowerCase s = map lower_char s"

text \<open>\<open>s.includes(pat)\<close>: \<open>pat\<close> occurs in \<open>s\<close> as a contiguous run.\<close>

fun str_includes :: "string \<Rightarrow> string \<Rightarrow> bool" where
  "str_includes [] pat = (pat = [])"
| "str_includes (c # cs) pat = (prefix pat (c # cs) \<or> str_includes cs pat)"

definition startsWith :: "string \<Rightarrow> string \<Rightarrow> bool" where
  "startsWith s pat = prefix pat s"

definition endsWith :: "string \<Rightarrow> string \<Rightarrow> bool" where
  "endsWith s pat = suffix pat s"

definition trim :: "string \<Rightarrow> string" where
  "trim s = rev (dropWhile is_space (rev (dropWhile is_space s)))"

text \<open>\<open>s.split('\n')\<close> never returns the empty array: the empty text has one empty line.\<close>

fun split_nl :: "string \<Rightarrow> string list" where
  "split_nl [] = [[]]"
| "split_nl (c # cs) =
     (case split_nl cs of
        [] \<Rightarrow> [[c]]
      | l # ls \<Rightarrow> if c = CHR ''\<newline>'' then [] # l # ls else (c # l) # ls)"

text \<open>\<open>lines.join('\n')\<close>.\<close>

fun join_nl :: "string list \<Rightarrow> string" where
  "join_nl [] = []"
| "join_nl [l] = l"
| "join_nl (l # m # ls) = l @ CHR ''\<newline>'' # join_nl (m # ls)"

section \<open>Result classifier\<close>

datatype buildTool = Maven | Gradle

text \<open>\<open>_parseTestResult(output, buildTool)\<close>; \<open>None\<close> is the \<open>null\<close> tool tag.\<close>

definition parseTestResult :: "string \<Rightarrow> buildTool option \<Rightarrow> bool" where
  "parseTestResult output tool =
     (let lowerOutput = toLowerCase output in
      case tool of
        Some Gradle \<Rightarrow>
          if str_includes lowerOutput ''build successful'' \<or>
             (str_includes lowerOutput ''test'' \<and> \<not> str_includes lowerOutput ''failed''
                \<and> \<not> str_includes lowerOutput ''failure'')
          then True
          else \<not> str_includes lowerOutput ''build failed'' \<and>
               \<not> str_includes lowerOutput ''test failed'' \<and>
               \<not> str_includes lowerOutput ''failures:''
      | Some Maven \<Rightarrow>
          if str_includes lowerOutput ''build success''
          then True
          else \<not> str_includes lowerOutput ''build failure'' \<and>
               \<not> str_includes lowerOutput ''tests run:'' \<and>
               \<not> str_includes lowerOutput ''failures:''
      | None \<Rightarrow> \<not> str_includes lowerOutput ''fail'' \<and> \<not> str_includes lowerOutput ''error'')"

text \<open>The negative signals of the keyword table, per tool, and the phrase whose presence
  the code checks first.\<close>

definition negative_signal :: "buildTool \<Rightarrow> string \<Rightarrow> bool" where
  "negative_signal tool lowerOutput =
     (case tool of
        Gradle \<Rightarrow> str_includes lowerOutput ''build failed'' \<or> str_includes lowerOutput ''test failed''
                   \<or> str_includes lowerOutput ''failures:''
      | Maven \<Rightarrow> str_includes lowerOutput ''build failure'' \<or> str_includes lowerOutput ''tests run:''
                   \<or> str_includes lowerOutput ''failures:'')"

definition success_phrase :: "buildTool \<Rightarrow> string" where
  "success_phrase tool = (case tool of Gradle \<Rightarrow> ''build successful'' | Maven \<Rightarrow> ''build success'')"

section \<open>Process runner\<close>

text \<open>The errors \<open>_executeCommand\<close> rejects with: \<open>Command exited with code ...\<close> with the
  code it names, the error passed to the \<open>error\<close> handler with its message, and
  \<open>Command timed out after 5 minutes\<close>.\<close>

datatype exec_error = CommandExited "int option" | ProcessError string | TimedOut

text \<open>
  The \<open>close\<close> handler of \<open>_executeCommand\<close>. The exit code is \<open>None\<close> when the runtime
  passes \<open>null\<close> (a child ended by a signal); \<open>code !== 0\<close> holds for it. \<open>Inl\<close> is the
  rejection, \<open>Inr\<close> the resolved output.
\<close>

definition on_close :: "int option \<Rightarrow> string \<Rightarrow> string \<Rightarrow> exec_error + string" where
  "on_close exit_code stdout stderr =
     (let output = stdout @ ''\<newline>'' @ stderr in
      if exit_code \<noteq> Some 0 \<and> stdout = [] \<and> stderr = []
      then Inl (CommandExited exit_code)
      else Inr output)"

subsection \<open>The promise of \<open>_executeCommand\<close> under the events of the child\<close>

text \<open>
  What the runtime delivers to the handlers that \<open>_executeCommand\<close> registers: data on
  the two streams, the \<open>error\<close> event with its message, the \<open>close\<close> event with the exit
  code (the child has ended and its streams are closed), and the firing of the timer.
\<close>

datatype child_event =
  StdoutData string | StderrData string | ErrorEv string | CloseEv "int option" | TimerEv

text \<open>
  The variables of the closure (\<open>stdout\<close>, \<open>stderr\<close>), the state of the promise
  (\<open>None\<close> while pending, then \<open>Inl\<close> the rejection or \<open>Inr\<close> the resolved output), whether
  the \<open>close\<close> event has been delivered, and whether \<open>child.kill('SIGTERM')\<close> has been
  called.
\<close>

record runner =
  stdoutBuf :: string
  stderrBuf :: string
  outcome :: "(exec_error + string) option"
  closeSeen :: bool
  killSent :: bool

text \<open>\<open>resolve\<close> and \<open>reject\<close>: the first call settles the promise, later calls change
  nothing.\<close>

definition settle :: "exec_error + string \<Rightarrow> runner \<Rightarrow> runner" where
  "settle result st =
     (case outcome st of None \<Rightarrow> st\<lparr>outcome := Some result\<rparr> | Some r \<Rightarrow> st)"

text \<open>The five handlers. The timer's handler calls \<open>child.kill('SIGTERM')\<close> and rejects in
  the same turn; the \<open>error\<close> handler only rejects.\<close>

definition handle_event :: "child_event \<Rightarrow> runner \<Rightarrow> runner" where
  "handle_event ev st =
     (case ev of
        StdoutData d \<Rightarrow> st\<lparr>stdoutBuf := stdoutBuf st @ d\<rparr>
      | StderrData d \<Rightarrow> st\<lparr>stderrBuf := stderrBuf st @ d\<rparr>
      | ErrorEv msg \<Rightarrow> settle (Inl (ProcessError msg)) st
      | CloseEv exit_code \<Rightarrow>
          settle (on_close exit_code (stdoutBuf st) (stderrBuf st)) (st\<lparr>closeSeen := True\<rparr>)
      | TimerEv \<Rightarrow> settle (Inl TimedOut) (st\<lparr>killSent := True\<rparr>))"

fun run_events :: "child_event list \<Rightarrow> runner \<Rightarrow> runner" where
  "run_events [] st = st"
| "run_events (ev # evs) st = run_events evs (handle_event ev st)"

definition runner_init :: runner where
  "runner_init =
     \<lparr>stdoutBuf = [], stderrBuf = [], outcome = None, closeSeen = False, killSent = False\<rparr>"

text \<open>One call of \<open>_executeCommand\<close> under the events the runtime delivers, in their
  order. The timer is never cleared, so its event can come after the \<open>close\<close> event too.\<close>

definition executeCommand :: "child_event list \<Rightarrow> runner" where
  "executeCommand evs = run_events evs runner_init"

text \<open>What a settled promise says about the child, by the kind of the outcome.\<close>

definition settled_ok :: "runner \<Rightarrow> bool" where
  "settled_ok st =
     (case outcome st of
        None \<Rightarrow> True
      | Some (Inr output) \<Rightarrow> closeSeen st
      | Some (Inl (CommandExited c)) \<Rightarrow> closeSeen st
      | Some (Inl TimedOut) \<Rightarrow> killSent st
      | Some (Inl (ProcessError msg)) \<Rightarrow> True)"

section \<open>Target-name validation and the launch of a test run\<close>

text \<open>The two character classes of \<open>validPattern\<close>: \<open>[a-zA-Z_$]\<close> and \<open>[a-zA-Z0-9_$]\<close>.\<close>

definition is_name_start :: "char \<Rightarrow> bool" where
  "is_name_start c = (is_lower c \<or> is_upper c \<or> c = CHR ''_'' \<or> c = CHR ''$'')"

definition is_name_part :: "char \<Rightarrow> bool" where
  "is_name_part c = (is_lower c \<or> is_upper c \<or> is_digit c \<or> c = CHR ''_'' \<or> c = CHR ''$'')"

text \<open>
  The rest of the pattern after the first segment,
  \<open>(\.[a-zA-Z_$][a-zA-Z0-9_$]*)*\*?$\<close>. The matcher never has to backtrack: a greedy
  segment stops at a character outside its class, and a shorter segment would leave a
  class character where only a dot, a star or the end can follow.
\<close>

function name_tail :: "string \<Rightarrow> bool" where
  "name_tail [] = True"
| "name_tail (c # cs) =
     (if c = CHR ''.''
      then (case cs of
              [] \<Rightarrow> False
            | d # ds \<Rightarrow> is_name_start d \<and> name_tail (dropWhile is_name_part ds))
      else c = CHR ''*'' \<and> cs = [])"
  by pat_completeness auto
termination
  by (relation "measure length")
    (auto simp: le_imp_less_Suc length_dropWhile_le less_Suc_eq_le intro: le_SucI)

text \<open>\<open>validPattern.test(name)\<close> for
  \<open>/^[a-zA-Z_$][a-zA-Z0-9_$]*(\.[a-zA-Z_$][a-zA-Z0-9_$]*)*\*?$/\<close>.\<close>

definition validPattern :: "string \<Rightarrow> bool" where
  "validPattern s =
     (case s of
        [] \<Rightarrow> False
      | c # cs \<Rightarrow> is_name_start c \<and> name_tail (dropWhile is_name_part cs))"

definition validateTestClassName :: "string \<Rightarrow> bool" where
  "validateTestClassName nm = (validPattern nm \<and> length nm \<le> 256)"

datatype run_error = InvalidTestClassName | NoWorkspaceFolder | NoBuildFile

record invocation =
  command :: string
  args :: "string list"
  cwd :: string

text \<open>
  \<open>_runTest\<close> up to its call of \<open>_executeCommand\<close>: the result is the error thrown
  before any process exists, or the invocation handed to \<open>spawn\<close>. The first workspace
  folder, the answer of \<open>_detectBuildTool\<close> and the platform test come from the
  environment and are parameters.
\<close>

definition runTest_launch ::
  "string \<Rightarrow> string option \<Rightarrow> buildTool option \<Rightarrow> bool \<Rightarrow> run_error + invocation" where
  "runTest_launch testClassName workspaceFolder detected win32 =
     (if \<not> validateTestClassName testClassName then Inl InvalidTestClassName
      else case workspaceFolder of
        None \<Rightarrow> Inl NoWorkspaceFolder
      | Some folder \<Rightarrow>
          (case detected of
             Some Gradle \<Rightarrow>
               Inr \<lparr>command = (if win32 then ''gradlew.bat'' else ''./gradlew''),
                    args = [''test'', ''--tests'', testClassName, ''--info''],
                    cwd = folder\<rparr>
           | Some Maven \<Rightarrow>
               Inr \<lparr>command = ''mvn'', args = [''test'', ''-Dtest='' @ testClassName],
                    cwd = folder\<rparr>
           | None \<Rightarrow> Inl NoBuildFile))"

text \<open>
  The language of the pattern as the specification writes it, for comparison with the
  matcher: a segment is a start character followed by part characters; a target name is
  a segment, any number of dot-prefixed segments, and an optional final star.
\<close>

definition name_segments :: "string set" where
  "name_segments = {c # cs | c cs. is_name_start c \<and> list_all is_name_part cs}"

definition dotted :: "string list \<Rightarrow> string" where
  "dotted js = concat (map (\<lambda>j. CHR ''.'' # j) js)"

definition target_names :: "string set" where
  "target_names =
     {i @ dotted js @ w | i js w.
        i \<in> name_segments \<and> list_all (\<lambda>j. j \<in> name_segments) js \<and> (w = [] \<or> w = ''*'')}"

section \<open>Regular-expression pieces\<close>

text \<open>
  Each regular expression of the source is written as a matcher over the remaining
  text. \<open>skip_ws\<close> is a greedy \<open>\s*\<close>, \<open>ws_plus\<close> a greedy \<open>\s+\<close>, \<open>lit\<close> a literal.
  A greedy run is never given back in these patterns: what follows a run in the pattern
  cannot start with a character of the run's class. Where the pattern can backtrack
  (an optional group, the repeated modifier group), the matcher tries the alternatives
  in the order the regular-expression engine does.
\<close>

definition skip_ws :: "string \<Rightarrow> string" where
  "skip_ws s = dropWhile is_space s"

definition ws_plus :: "string \<Rightarrow> string option" where
  "ws_plus s =
     (case s of [] \<Rightarrow> None | c # cs \<Rightarrow> if is_space c then Some (dropWhile is_space cs) else None)"

definition lit :: "string \<Rightarrow> string \<Rightarrow> string option" where
  "lit p s = (if prefix p s then Some (drop (length p) s) else None)"

text \<open>A keyword followed by \<open>\s+\<close>, as a test: \<open>class\s+\<close>, \<open>interface\s+\<close>, \<open>enum\s+\<close>.\<close>

definition kw_ws :: "string \<Rightarrow> string \<Rightarrow> bool" where
  "kw_ws k s = (case lit k s of None \<Rightarrow> False | Some r \<Rightarrow> ws_plus r \<noteq> None)"

text \<open>An optional group \<open>(p)?\<close> before the rest \<open>k\<close> of a pattern: with the group first,
  without it when the rest then fails.\<close>

definition opt :: "(string \<Rightarrow> string option) \<Rightarrow> (string \<Rightarrow> bool) \<Rightarrow> string \<Rightarrow> bool" where
  "opt p k s = ((case p s of None \<Rightarrow> False | Some r \<Rightarrow> k r) \<or> k s)"

text \<open>The alternation \<open>(?:public|private|protected)\<close>: the first keyword that is a prefix.\<close>

definition access_kw :: "string \<Rightarrow> string option" where
  "access_kw s =
     (case find (\<lambda>k. prefix k s) [''public'', ''private'', ''protected''] of
        None \<Rightarrow> None
      | Some k \<Rightarrow> Some (drop (length k) s))"

text \<open>\<open>/^\s*(?:public|private|protected)?\s*(?:abstract\s+)?class\s+/\<close>, the test that
  sets \<open>classStarted\<close>.\<close>

definition class_decl_line :: "string \<Rightarrow> bool" where
  "class_decl_line l =
     opt access_kw
       (\<lambda>s. opt (\<lambda>t. Option.bind (lit ''abstract'' t) ws_plus) (kw_ws ''class'') (skip_ws s))
       (skip_ws l)"

text \<open>The \<open>skipPatterns\<close>:
  \<open>/^\s*(?:public|private|protected)?\s*class\s+/\<close>, the same with \<open>interface\<close> and with
  \<open>enum\<close>, and \<open>/^\s*@/\<close>.\<close>

definition decl_kw_line :: "string \<Rightarrow> string \<Rightarrow> bool" where
  "decl_kw_line k l = opt access_kw (\<lambda>s. kw_ws k (skip_ws s)) (skip_ws l)"

definition annotation_line :: "string \<Rightarrow> bool" where
  "annotation_line l = prefix ''@'' (skip_ws l)"

definition skip_line :: "string \<Rightarrow> bool" where
  "skip_line l =
     (decl_kw_line ''class'' l \<or> decl_kw_line ''interface'' l \<or> decl_kw_line ''enum'' l
      \<or> annotation_line l)"

subsection \<open>The member-declaration pattern\<close>

text \<open>
  \<open>methodRegex\<close> is
  \<open>/^\s*((?:public|private|protected|static|final|abstract|synchronized|native|strictfp)\s+)*
  (\w+(?:<[^>]+>)?(?:\[\])?)\s+(\w+)\s*\(([^)]*)\)\s*(?:throws\s+[\w\s,]+)?\s*\{?/\<close>.
  Everything after the closing parenthesis can match the empty string and captures
  nothing, so it decides neither the match nor the groups.
\<close>

definition modifier_keywords :: "string list" where
  "modifier_keywords =
     [''public'', ''private'', ''protected'', ''static'', ''final'', ''abstract'',
      ''synchronized'', ''native'', ''strictfp'']"

text \<open>One round of the repeated group 1: a modifier keyword and \<open>\s+\<close>. The result is the
  text the round matched and the rest.\<close>

definition modifier_iter :: "string \<Rightarrow> (string \<times> string) option" where
  "modifier_iter s =
     (case find (\<lambda>k. prefix k s \<and> ws_plus (drop (length k) s) \<noteq> None) modifier_keywords of
        None \<Rightarrow> None
      | Some k \<Rightarrow>
          (case ws_plus (drop (length k) s) of
             None \<Rightarrow> None
           | Some r \<Rightarrow> Some (take (length s - length r) s, r)))"

text \<open>\<open>(?:<[^>]+>)?\<close> and \<open>(?:\[\])?\<close>: the text matched (empty when the group is
  absent) and the rest.\<close>

definition generic_part :: "string \<Rightarrow> string \<times> string" where
  "generic_part s =
     (case s of
        [] \<Rightarrow> ([], s)
      | c # cs \<Rightarrow>
          (let inner = takeWhile (\<lambda>x. x \<noteq> CHR ''>'') cs;
               after = dropWhile (\<lambda>x. x \<noteq> CHR ''>'') cs
           in if c = CHR ''<'' \<and> inner \<noteq> [] \<and> after \<noteq> []
              then (c # inner @ ''>'', tl after) else ([], s)))"

definition array_part :: "string \<Rightarrow> string \<times> string" where
  "array_part s = (if prefix ''[]'' s then (''[]'', drop 2 s) else ([], s))"

text \<open>Groups 2 to 4 from the position after the modifiers:
  \<open>(\w+(?:<[^>]+>)?(?:\[\])?)\s+(\w+)\s*\(([^)]*)\)\<close>.\<close>

definition method_head :: "string \<Rightarrow> (string \<times> string \<times> string) option" where
  "method_head s =
     (let w = takeWhile is_word s;
          (gen, r1) = generic_part (dropWhile is_word s);
          (arr, r2) = array_part r1
      in if w = [] then None
         else case ws_plus r2 of
           None \<Rightarrow> None
         | Some r3 \<Rightarrow>
             (let n = takeWhile is_word r3 in
              if n = [] then None
              else case lit ''('' (skip_ws (dropWhile is_word r3)) of
                None \<Rightarrow> None
              | Some r5 \<Rightarrow>
                  if dropWhile (\<lambda>x. x \<noteq> CHR '')'') r5 = [] then None
                  else Some (w @ gen @ arr, n, takeWhile (\<lambda>x. x \<noteq> CHR '')'') r5)))"

lemma ws_plus_shorter: "ws_plus s = Some r \<Longrightarrow> length r < length s"
  by (cases s) (auto simp: ws_plus_def le_imp_less_Suc length_dropWhile_le split: if_splits)

lemma modifier_iter_shorter: "modifier_iter s = Some (cap, r) \<Longrightarrow> length r < length s"
proof -
  assume a: "modifier_iter s = Some (cap, r)"
  then obtain k :: string where "ws_plus (drop (length k) s) = Some r"
    by (auto simp: modifier_iter_def split: option.splits)
  from ws_plus_shorter[OF this] show ?thesis by simp
qed

text \<open>
  The repeated modifier group is greedy and backtracks: the engine takes one more round
  when it can and matches the rest after it; when that fails it matches the rest from
  where it is, so that a modifier keyword can end up as the result type. Group 1 holds
  the text of the last round taken (\<open>last_round\<close>; empty when no round was, as
  \<open>match[1] || ''\<close> reads it).
\<close>

function method_from :: "string \<Rightarrow> string \<Rightarrow> (string \<times> string \<times> string \<times> string) option" where
  "method_from last_round s =
     (let here = map_option (\<lambda>(t, n, ps). (last_round, t, n, ps)) (method_head s) in
      case modifier_iter s of
        None \<Rightarrow> here
      | Some (cap, r) \<Rightarrow>
          (case method_from cap r of
             Some m \<Rightarrow> Some m
           | None \<Rightarrow> here))"
  by pat_completeness auto
termination
  by (relation "measure (\<lambda>(l, s). length s)") (auto simp: modifier_iter_shorter)

declare method_from.simps [simp del]

definition methodRegex :: "string \<Rightarrow> (string \<times> string \<times> string \<times> string) option" where
  "methodRegex line = method_from [] (skip_ws line)"

section \<open>Structural scanner\<close>

record JavaMethod =
  name :: string
  signature :: string
  returnType :: string
  parameters :: string
  modifiers :: "string list"
  startLine :: nat
  endLine :: nat

text \<open>The variables of the loop of \<open>extractMethods\<close>.\<close>

record scanner =
  methods :: "JavaMethod list"
  braceCount :: int
  inMethod :: bool
  currentMethod :: "JavaMethod option"
  classStarted :: bool

definition count_char :: "char \<Rightarrow> string \<Rightarrow> int" where
  "count_char c s = int (length (filter (\<lambda>x. x = c) s))"

text \<open>\<open>s.split(/\s+/)\<close>: the pieces between the runs of white space, empty pieces at the
  ends included.\<close>

function split_ws :: "string \<Rightarrow> string list" where
  "split_ws s =
     (let w = takeWhile (\<lambda>c. \<not> is_space c) s; r = dropWhile (\<lambda>c. \<not> is_space c) s
      in if r = [] then [w] else w # split_ws (dropWhile is_space (tl r)))"
  by pat_completeness auto
termination
proof (relation "measure length")
  fix s w r
  assume r: "r = dropWhile (\<lambda>c. \<not> is_space c) s" and ne: "r \<noteq> []"
  have "length (dropWhile is_space (tl r)) \<le> length (tl r)" by (rule length_dropWhile_le)
  also have "\<dots> < length r" using ne by (cases r) auto
  also have "\<dots> \<le> length s" unfolding r by (rule length_dropWhile_le)
  finally show "(dropWhile is_space (tl r), s) \<in> measure length" by simp
qed simp

declare split_ws.simps [simp del]

text \<open>\<open>xs.join(' ')\<close>.\<close>

fun join_sp :: "string list \<Rightarrow> string" where
  "join_sp [] = []"
| "join_sp [l] = l"
| "join_sp (l # m # ls) = l @ CHR '' '' # join_sp (m # ls)"

text \<open>The branch \<open>if (inMethod && currentMethod)\<close>: count the braces of the line and close
  the member when the depth is back at zero or below.\<close>

definition track_body :: "nat \<Rightarrow> string \<Rightarrow> JavaMethod \<Rightarrow> scanner \<Rightarrow> scanner" where
  "track_body lineNum line cur st =
     (let bc = braceCount st + count_char CHR ''{'' line - count_char CHR ''}'' line in
      if bc \<le> 0
      then st\<lparr>methods := methods st @ [cur\<lparr>endLine := lineNum\<rparr>],
              currentMethod := None, inMethod := False, braceCount := 0\<rparr>
      else st\<lparr>braceCount := bc\<rparr>)"

text \<open>The branch \<open>if (classStarted)\<close>: try the member-declaration pattern on the line.\<close>

definition try_declaration :: "nat \<Rightarrow> string \<Rightarrow> scanner \<Rightarrow> scanner" where
  "try_declaration lineNum line st =
     (if \<not> classStarted st then st
      else case methodRegex line of
        None \<Rightarrow> st
      | Some (modifiersStr, rType, methodName, params) \<Rightarrow>
          if rType = methodName then st
          else
            (let mods = filter (\<lambda>m. m \<noteq> []) (split_ws (trim modifiersStr));
                 ps = trim params;
                 sig = trim (join_sp mods @ '' '' @ rType @ '' '' @ methodName
                              @ ''('' @ ps @ '')'');
                 cur = \<lparr>name = methodName, signature = sig, returnType = rType,
                        parameters = ps, modifiers = mods,
                        startLine = lineNum, endLine = lineNum\<rparr>
             in if str_includes line ''{''
                then (let bc = count_char CHR ''{'' line - count_char CHR ''}'' line in
                      if bc > 0
                      then st\<lparr>currentMethod := Some cur, braceCount := bc, inMethod := True\<rparr>
                      else st\<lparr>methods := methods st @ [cur\<lparr>endLine := lineNum\<rparr>],
                              currentMethod := None, braceCount := bc\<rparr>)
                else st\<lparr>currentMethod := Some cur, inMethod := True, braceCount := 0\<rparr>))"

text \<open>One round of the loop, on line number \<open>lineNum\<close> (counted from 1).\<close>

definition scan_line :: "nat \<Rightarrow> string \<Rightarrow> scanner \<Rightarrow> scanner" where
  "scan_line lineNum line st =
     (let t = trim line in
      if t = [] \<or> startsWith t ''//'' \<or> startsWith t ''*'' \<or> startsWith t ''/*'' then st
      else if class_decl_line line then st\<lparr>classStarted := True\<rparr>
      else if skip_line line then st
      else case currentMethod st of
        Some cur \<Rightarrow>
          if inMethod st then track_body lineNum line cur st
          else try_declaration lineNum line st
      | None \<Rightarrow> try_declaration lineNum line st)"

text \<open>The loop over the lines; \<open>i\<close> is the index of the first line of the list.\<close>

fun scan_lines :: "nat \<Rightarrow> string list \<Rightarrow> scanner \<Rightarrow> scanner" where
  "scan_lines i [] st = st"
| "scan_lines i (l # ls) st = scan_lines (i + 1) ls (scan_line (i + 1) l st)"

definition scanner_init :: scanner where
  "scanner_init =
     \<lparr>methods = [], braceCount = 0, inMethod = False, currentMethod = None,
      classStarted = False\<rparr>"

definition extractMethods :: "string \<Rightarrow> JavaMethod list" where
  "extractMethods sourceCode = methods (scan_lines 0 (split_nl sourceCode) scanner_init)"

subsection \<open>Invariants of the scanner loop\<close>

text \<open>A member comes from the line it starts at: that line matches the declaration
  pattern with the member's result type and name, and the two differ.\<close>

definition origin :: "string list \<Rightarrow> JavaMethod \<Rightarrow> bool" where
  "origin ls m =
     (1 \<le> startLine m \<and> startLine m \<le> length ls \<and> returnType m \<noteq> name m \<and>
      (\<exists>g ps. methodRegex (ls ! (startLine m - 1)) = Some (g, returnType m, name m, ps)))"

text \<open>The emitted members after \<open>n\<close> lines: well-formed ranges within the lines read, each
  one ending before every later one starts.\<close>

definition ranges_ok :: "nat \<Rightarrow> JavaMethod list \<Rightarrow> bool" where
  "ranges_ok n ms =
     (list_all (\<lambda>m. 1 \<le> startLine m \<and> startLine m \<le> endLine m \<and> endLine m \<le> n) ms
      \<and> sorted_wrt (\<lambda>a b. endLine a < startLine b) ms)"

definition current_ok ::
  "string list \<Rightarrow> nat \<Rightarrow> JavaMethod list \<Rightarrow> JavaMethod option \<Rightarrow> bool" where
  "current_ok ls n ms cm =
     (case cm of
        None \<Rightarrow> True
      | Some c \<Rightarrow> origin ls c \<and> startLine c \<le> n \<and> list_all (\<lambda>m. endLine m < startLine c) ms)"

definition scanner_inv :: "string list \<Rightarrow> nat \<Rightarrow> scanner \<Rightarrow> bool" where
  "scanner_inv ls n st =
     (ranges_ok n (methods st) \<and> list_all (origin ls) (methods st) \<and>
      current_ok ls n (methods st) (currentMethod st) \<and>
      (inMethod st \<or> currentMethod st = None))"

section \<open>Directive analyzer and merger\<close>

text \<open>\<open>[\w.]\<close>, the class of the characters of a directive.\<close>

definition is_word_or_dot :: "char \<Rightarrow> bool" where
  "is_word_or_dot c = (is_word c \<or> c = CHR ''.'')"

text \<open>\<open>\s*;\<close>: the rest after the semicolon.\<close>

definition semicolon :: "string \<Rightarrow> string option" where
  "semicolon s = lit '';'' (skip_ws s)"

text \<open>
  \<open>([\w.]+(?:\.\*)?)\s*;\<close>, the part of \<open>importRegex\<close> after \<open>import\s+\<close>: group 1 and the
  rest after the match. The greedy run \<open>[\w.]+\<close> takes every class character; the
  optional \<open>\.\*\<close> cannot match after it, so the engine first looks for the semicolon
  there. When that fails it gives back characters of the run: only giving back a final
  dot that a star follows lets \<open>\.\*\<close> match, and group 1 is then the run and the star.
\<close>

definition import_tail :: "string \<Rightarrow> (string \<times> string) option" where
  "import_tail s =
     (let g = takeWhile is_word_or_dot s; r = dropWhile is_word_or_dot s in
      if g = [] then None
      else case semicolon r of
        Some r' \<Rightarrow> Some (g, r')
      | None \<Rightarrow>
          if 2 \<le> length g \<and> last g = CHR ''.''
          then (case lit ''*'' r of
                  None \<Rightarrow> None
                | Some r1 \<Rightarrow> map_option (\<lambda>r'. (g @ ''*'', r')) (semicolon r1))
          else None)"

text \<open>One match of \<open>importRegex = /^\s*import\s+([\w.]+(?:\.\*)?)\s*;/gm\<close> that starts at the
  given position, a start of a line: group 1 and the rest after the match.\<close>

definition import_match :: "string \<Rightarrow> (string \<times> string) option" where
  "import_match s =
     (case lit ''import'' (skip_ws s) of
        None \<Rightarrow> None
      | Some r0 \<Rightarrow> (case ws_plus r0 of None \<Rightarrow> None | Some r1 \<Rightarrow> import_tail r1))"

lemma lit_length: "lit p s = Some r \<Longrightarrow> length r \<le> length s"
  by (auto simp: lit_def split: if_splits)

lemma semicolon_length: "semicolon s = Some r \<Longrightarrow> length r \<le> length s"
proof -
  assume "semicolon s = Some r"
  then have "length r \<le> length (skip_ws s)" unfolding semicolon_def by (rule lit_length)
  also have "\<dots> \<le> length s" by (simp add: skip_ws_def length_dropWhile_le)
  finally show ?thesis .
qed

lemma import_tail_length: "import_tail s = Some (g, r) \<Longrightarrow> length r \<le> length s"
proof -
  assume a: "import_tail s = Some (g, r)"
  have d: "length (dropWhile is_word_or_dot s) \<le> length s" by (rule length_dropWhile_le)
  from a consider "semicolon (dropWhile is_word_or_dot s) = Some r"
    | r1 where "lit ''*'' (dropWhile is_word_or_dot s) = Some r1" "semicolon r1 = Some r"
    by (auto simp: import_tail_def Let_def split: if_splits option.splits)
  then show ?thesis
  proof cases
    case 1
    from semicolon_length[OF this] d show ?thesis by simp
  next
    case 2
    from lit_length[OF 2(1)] semicolon_length[OF 2(2)] d show ?thesis by simp
  qed
qed

lemma import_match_shorter: "import_match s = Some (g, r) \<Longrightarrow> length r < length s"
proof -
  assume "import_match s = Some (g, r)"
  then obtain r0 r1 where r0: "lit ''import'' (skip_ws s) = Some r0"
    and r1: "ws_plus r0 = Some r1" and t: "import_tail r1 = Some (g, r)"
    by (auto simp: import_match_def split: option.splits)
  have "length r \<le> length r1" by (rule import_tail_length[OF t])
  also have "\<dots> < length r0" by (rule ws_plus_shorter[OF r1])
  also have "\<dots> \<le> length (skip_ws s)" by (rule lit_length[OF r0])
  also have "\<dots> \<le> length s" by (simp add: skip_ws_def length_dropWhile_le)
  finally show ?thesis .
qed

text \<open>
  The loop \<open>while ((match = importRegex.exec(sourceCode)) !== null)\<close>. The engine looks
  for the next match from \<open>lastIndex\<close> on; under the \<open>m\<close> flag \<open>^\<close> holds at the start of
  the text and after a line terminator, which is what \<open>bol\<close> records about the current
  position. After a match the search goes on behind its semicolon.
\<close>

function scan_imports :: "bool \<Rightarrow> string \<Rightarrow> string list" where
  "scan_imports bol [] = []"
| "scan_imports bol (c # cs) =
     (case (if bol then import_match (c # cs) else None) of
        Some (g, r) \<Rightarrow> g # scan_imports False r
      | None \<Rightarrow> scan_imports (is_line_terminator c) cs)"
  by pat_completeness auto
termination
  by (relation "measure (\<lambda>(b, s). length s)")
    (auto dest: import_match_shorter split: if_splits)

definition extractImports :: "string \<Rightarrow> string list" where
  "extractImports sourceCode = scan_imports True sourceCode"

text \<open>The two line tests of \<open>mergeImports\<close>: \<open>/^\s*import\s+/\<close> and
  \<open>/^\s*(?:public\s+)?class\s+/\<close>.\<close>

definition import_line :: "string \<Rightarrow> bool" where
  "import_line l = kw_ws ''import'' (skip_ws l)"

definition merge_class_line :: "string \<Rightarrow> bool" where
  "merge_class_line l =
     opt (\<lambda>t. Option.bind (lit ''public'' t) ws_plus) (kw_ws ''class'') (skip_ws l)"

text \<open>The loop that finds \<open>insertIndex\<close>: \<open>i\<close> is the index of the first line of the list,
  \<open>ins\<close> the value of \<open>insertIndex\<close> so far; a class line that is not an import line
  ends the loop.\<close>

fun find_insert :: "string list \<Rightarrow> nat \<Rightarrow> nat \<Rightarrow> nat" where
  "find_insert [] i ins = ins"
| "find_insert (l # ls) i ins =
     (if import_line l then find_insert ls (i + 1) (i + 1)
      else if merge_class_line l then ins
      else find_insert ls (i + 1) ins)"

definition insertIndex :: "string \<Rightarrow> nat" where
  "insertIndex existingCode = find_insert (split_nl existingCode) 0 0"

definition importsToAdd :: "string \<Rightarrow> string \<Rightarrow> string list" where
  "importsToAdd existingCode newCode =
     filter (\<lambda>imp. imp \<notin> set (extractImports existingCode)) (extractImports newCode)"

definition import_stmt :: "string \<Rightarrow> string" where
  "import_stmt imp = ''import '' @ imp @ '';''"

text \<open>\<open>lines.splice(insertIndex, 0, ...importLines)\<close>; the index never exceeds the length.\<close>

definition splice_at :: "nat \<Rightarrow> 'a list \<Rightarrow> 'a list \<Rightarrow> 'a list" where
  "splice_at k items xs = take k xs @ items @ drop k xs"

definition mergeImports :: "string \<Rightarrow> string \<Rightarrow> string" where
  "mergeImports existingCode newCode =
     (if importsToAdd existingCode newCode = [] then existingCode
      else join_nl (splice_at (insertIndex existingCode)
                      (map import_stmt (importsToAdd existingCode newCode))
                      (split_nl existingCode)))"

text \<open>The text of the lines before the insertion index and the text of the lines from
  it on.\<close>

definition text_before :: "string \<Rightarrow> string" where
  "text_before existingCode =
     join_nl (take (insertIndex existingCode) (split_nl existingCode))"

definition text_after :: "string \<Rightarrow> string" where
  "text_after existingCode =
     join_nl (drop (insertIndex existingCode) (split_nl existingCode))"

subsection \<open>Notions used to state the claims about the merge\<close>

text \<open>The lines before the first class line: the ones the loop of \<open>mergeImports\<close> looks
  at (an import line is never a class line).\<close>

definition head_lines :: "string list \<Rightarrow> string list" where
  "head_lines ls = takeWhile (\<lambda>l. \<not> merge_class_line l) ls"

text \<open>What group 1 of \<open>importRegex\<close> can hold: a non-empty run of \<open>[\w.]\<close>, or a run of at
  least two that ends with a dot, followed by a star.\<close>

definition cap_ok :: "string \<Rightarrow> bool" where
  "cap_ok x =
     ((x \<noteq> [] \<and> list_all is_word_or_dot x) \<or>
      (\<exists>g. x = g @ ''*'' \<and> list_all is_word_or_dot g \<and> 2 \<le> length g \<and> last g = CHR ''.''))"

text \<open>\<open>import_match\<close> behind the keyword: \<open>\s+([\w.]+(?:\.\*)?)\s*;\<close>.\<close>

definition after_import :: "string \<Rightarrow> (string \<times> string) option" where
  "after_import r0 = (case ws_plus r0 of None \<Rightarrow> None | Some r1 \<Rightarrow> import_tail r1)"

text \<open>No directive of the existing text runs across the insertion point: its directives
  are those of the lines before the insertion index followed by those of the lines from
  it on.\<close>

definition no_directive_across_insertion :: "string \<Rightarrow> bool" where
  "no_directive_across_insertion e =
     (extractImports e = extractImports (text_before e) @ extractImports (text_after e))"

text \<open>The line ends with a semicolon, white space apart.\<close>

definition ends_statement :: "string \<Rightarrow> bool" where
  "ends_statement l = prefix '';'' (dropWhile is_space (rev l))"

text \<open>The new lines are put at the top, or behind a line that ends with a semicolon.\<close>

definition statement_before_insertion :: "string \<Rightarrow> bool" where
  "statement_before_insertion e =
     (insertIndex e = 0 \<or> ends_statement (split_nl e ! (insertIndex e - 1)))"

text \<open>From every position of the text on, a semicolon is still to come or only white
  space is left: no match attempt that starts in the text can run out of it.\<close>

definition settled :: "string \<Rightarrow> bool" where
  "settled p = (\<forall>s. suffix s p \<longrightarrow> CHR '';'' \<in> set s \<or> list_all is_space s)"

section \<open>Path resolver\<close>

text \<open>
  The resolver works on the path of the source file relative to its workspace folder,
  which \<open>path.relative\<close> computes from the two locations; that relative path is the
  input of the model. \<open>path.parse\<close> and \<open>path.join\<close> are modelled as the POSIX variants of
  the runtime compute them for relative paths.
\<close>

text \<open>\<open>relativePath.replace(/\\/g, '/')\<close>.\<close>

definition normalize_separators :: "string \<Rightarrow> string" where
  "normalize_separators p = map (\<lambda>c. if c = CHR 0x5C then CHR ''/'' else c) p"

text \<open>\<open>s.replace(pat, rep)\<close> with a string pattern: the first occurrence only. The
  replacement texts of the source contain no dollar sign, so none of the special
  replacement patterns applies.\<close>

fun replace_first :: "string \<Rightarrow> string \<Rightarrow> string \<Rightarrow> string" where
  "replace_first pat rep [] = (if pat = [] then rep else [])"
| "replace_first pat rep (c # cs) =
     (if prefix pat (c # cs) then rep @ drop (length pat) (c # cs)
      else c # replace_first pat rep cs)"

fun split_on :: "char \<Rightarrow> string \<Rightarrow> string list" where
  "split_on sep [] = [[]]"
| "split_on sep (c # cs) =
     (case split_on sep cs of
        [] \<Rightarrow> [[c]]
      | l # ls \<Rightarrow> if c = sep then [] # l # ls else (c # l) # ls)"

fun join_with :: "char \<Rightarrow> string list \<Rightarrow> string" where
  "join_with sep [] = []"
| "join_with sep [l] = l"
| "join_with sep (l # m # ls) = l @ sep # join_with sep (m # ls)"

subsection \<open>\<open>path.parse\<close>\<close>

definition strip_trailing_slashes :: "string \<Rightarrow> string" where
  "strip_trailing_slashes p = rev (dropWhile (\<lambda>c. c = CHR ''/'') (rev p))"

definition last_segment :: "string \<Rightarrow> string" where
  "last_segment s = rev (takeWhile (\<lambda>c. c \<noteq> CHR ''/'') (rev s))"

definition parse_root :: "string \<Rightarrow> string" where
  "parse_root p = (if prefix ''/'' p then ''/'' else [])"

text \<open>\<open>base\<close>: the last segment, trailing separators ignored.\<close>

definition parse_base :: "string \<Rightarrow> string" where
  "parse_base p = last_segment (strip_trailing_slashes (drop (length (parse_root p)) p))"

text \<open>\<open>dir\<close>: the text in front of the separator before the base, as written (not
  normalised); the root when there is no such separator.\<close>

definition parse_dir :: "string \<Rightarrow> string" where
  "parse_dir p =
     (let root = parse_root p;
          body = strip_trailing_slashes (drop (length root) p);
          base = last_segment body
      in if length base < length body
         then take (length root + length body - length base - 1) p
         else root)"

text \<open>\<open>ext\<close>: from the last dot of the base on, unless the base has no dot, its only dot
  leads it, or the base is \<open>..\<close>.\<close>

definition parse_ext :: "string \<Rightarrow> string" where
  "parse_ext p =
     (let base = parse_base p;
          e = rev (takeWhile (\<lambda>c. c \<noteq> CHR ''.'') (rev base))
      in if CHR ''.'' \<notin> set base then []
         else if take (length base - length e - 1) base = [] then []
         else if base = ''..'' then []
         else CHR ''.'' # e)"

definition parse_name :: "string \<Rightarrow> string" where
  "parse_name p = take (length (parse_base p) - length (parse_ext p)) (parse_base p)"

subsection \<open>\<open>path.join\<close>\<close>

text \<open>\<open>normalizeString\<close>: the kept segments, last one first. Empty segments and \<open>.\<close> are
  dropped; \<open>..\<close> removes the segment before it, or stays when there is none to remove
  and the path is relative.\<close>

fun normalize_segments :: "bool \<Rightarrow> string list \<Rightarrow> string list \<Rightarrow> string list" where
  "normalize_segments allowAboveRoot kept [] = kept"
| "normalize_segments allowAboveRoot kept (seg # segs) =
     (if seg = [] \<or> seg = ''.'' then normalize_segments allowAboveRoot kept segs
      else if seg = ''..'' then
        (case kept of
           lastSeg # below \<Rightarrow>
             if lastSeg \<noteq> ''..'' then normalize_segments allowAboveRoot below segs
             else normalize_segments allowAboveRoot
                    (if allowAboveRoot then seg # kept else kept) segs
         | [] \<Rightarrow>
             normalize_segments allowAboveRoot (if allowAboveRoot then [seg] else []) segs)
      else normalize_segments allowAboveRoot (seg # kept) segs)"

definition path_normalize :: "string \<Rightarrow> string" where
  "path_normalize p =
     (if p = [] then ''.''
      else
        (let isAbsolute = prefix ''/'' p;
             trailingSeparator = suffix ''/'' p;
             body = join_with CHR ''/''
                      (rev (normalize_segments (\<not> isAbsolute) [] (split_on CHR ''/'' p)))
         in if body = [] then (if isAbsolute then ''/'' else if trailingSeparator then ''./'' else ''.'')
            else (if isAbsolute then ''/'' else []) @ body
                   @ (if trailingSeparator then ''/'' else [])))"

definition path_join :: "string list \<Rightarrow> string" where
  "path_join parts =
     (let joined = join_with CHR ''/'' (filter (\<lambda>a. a \<noteq> []) parts)
      in if joined = [] then ''.'' else path_normalize joined)"

subsection \<open>The resolver\<close>

definition convertToTestPath :: "string \<Rightarrow> string" where
  "convertToTestPath relativePath =
     (let normalizedPath = normalize_separators relativePath in
      if str_includes normalizedPath ''src/main/java''
      then replace_first ''src/main/java'' ''src/test/java'' normalizedPath
      else if str_includes normalizedPath ''main/java''
      then replace_first ''main/java'' ''test/java'' normalizedPath
      else if str_includes normalizedPath ''src/main/kotlin''
      then replace_first ''src/main/kotlin'' ''src/test/kotlin'' normalizedPath
      else path_join [''src'', ''test'', ''java'', parse_dir normalizedPath,
                      parse_base normalizedPath])"

text \<open>The computed mapping of \<open>resolveTestPath\<close>: the converted path, with \<open>Test\<close> put
  in front of the extension unless the name already ends with it.\<close>

definition computedTestPath :: "string \<Rightarrow> string" where
  "computedTestPath relativePath =
     (let testPath = convertToTestPath relativePath in
      if \<not> endsWith (parse_name testPath) ''Test''
      then path_join [parse_dir testPath, parse_name testPath @ ''Test'' @ parse_ext testPath]
      else testPath)"

datatype resolve_error = NoWorkspaceFolderFound

text \<open>
  \<open>resolveTestPath\<close>. The workspace folder of the source is \<open>None\<close> when the editor knows
  none; the result \<open>(folder, path)\<close> stands for \<open>Uri.joinPath(folder, path)\<close>. An absent or
  empty suggested path is falsy and leaves the computed mapping in charge.
\<close>

definition resolveTestPath ::
  "string option \<Rightarrow> string \<Rightarrow> string option \<Rightarrow> resolve_error + (string \<times> string)" where
  "resolveTestPath workspaceFolder relativePath suggestedPath =
     (case workspaceFolder of
        None \<Rightarrow> Inl NoWorkspaceFolderFound
      | Some folder \<Rightarrow>
          (case suggestedPath of
             None \<Rightarrow> Inr (folder, computedTestPath relativePath)
           | Some suggested \<Rightarrow>
               if suggested \<noteq> [] then Inr (folder, suggested)
               else Inr (folder, computedTestPath relativePath)))"

section \<open>Facts about the text primitives\<close>

lemma includes_iff: "str_includes s pat \<longleftrightarrow> (\<exists>a b. s = a @ pat @ b)"
proof (induction s)
  case Nil
  then show ?case by auto
next
  case (Cons c cs)
  show ?case
  proof
    assume "str_includes (c # cs) pat"
    then consider "prefix pat (c # cs)" | "str_includes cs pat" by auto
    then show "\<exists>a b. c # cs = a @ pat @ b"
    proof cases
      case 1
      then obtain b where "c # cs = pat @ b" by (auto simp: prefix_def)
      then have "c # cs = [] @ pat @ b" by simp
      then show ?thesis by blast
    next
      case 2
      with Cons.IH obtain a b where "cs = a @ pat @ b" by blast
      then have "c # cs = (c # a) @ pat @ b" by simp
      then show ?thesis by blast
    qed
  next
    assume "\<exists>a b. c # cs = a @ pat @ b"
    then obtain a b where ab: "c # cs = a @ pat @ b" by blast
    show "str_includes (c # cs) pat"
    proof (cases a)
      case Nil
      with ab have "prefix pat (c # cs)" by (simp add: prefix_def)
      then show ?thesis by simp
    next
      case (Cons x a')
      with ab have "cs = a' @ pat @ b" by simp
      with Cons.IH have "str_includes cs pat" by blast
      then show ?thesis by simp
    qed
  qed
qed

lemma includes_append_right: "str_includes s (p @ q) \<Longrightarrow> str_includes s q"
proof -
  assume "str_includes s (p @ q)"
  then obtain a b where "s = a @ (p @ q) @ b" unfolding includes_iff by blast
  then have "s = (a @ p) @ q @ b" by simp
  then show ?thesis unfolding includes_iff by blast
qed

lemma includes_append_left: "str_includes s (p @ q) \<Longrightarrow> str_includes s p"
proof -
  assume "str_includes s (p @ q)"
  then obtain a b where "s = a @ (p @ q) @ b" unfolding includes_iff by blast
  then have "s = a @ p @ (q @ b)" by simp
  then show ?thesis unfolding includes_iff by blast
qed

lemma failed_of_build_failed: "str_includes s ''build failed'' \<Longrightarrow> str_includes s ''failed''"
  using includes_append_right [of s "''build ''" "''failed''"] by simp

lemma failed_of_test_failed: "str_includes s ''test failed'' \<Longrightarrow> str_includes s ''failed''"
  using includes_append_right [of s "''test ''" "''failed''"] by simp

lemma failure_of_failures: "str_includes s ''failures:'' \<Longrightarrow> str_includes s ''failure''"
  using includes_append_left [of s "''failure''" "''s:''"] by simp

section \<open>Claims about the result classifier\<close>

text \<open>
  C1 (as stated: a negative signal in the lower-cased output always gives a negative
  verdict, also when a positive signal is present). The code tests the success phrase
  first and returns a positive verdict at once. A Maven run prints its "Tests run:"
  summary line on success as well, and a Gradle output with "FAILURES: 1" followed by
  "BUILD SUCCESSFUL" is classified as passed: in both outputs a negative signal of the
  table occurs and the verdict is positive.
\<close>

theorem classifier_negative_signal_overridden:
  "negative_signal Maven
     (toLowerCase ''Tests run: 3, Failures: 0, Errors: 0, Skipped: 0\<newline>BUILD SUCCESS'')
   \<and> parseTestResult ''Tests run: 3, Failures: 0, Errors: 0, Skipped: 0\<newline>BUILD SUCCESS''
        (Some Maven)
   \<and> negative_signal Gradle (toLowerCase ''FAILURES: 1\<newline>BUILD SUCCESSFUL in 3s'')
   \<and> parseTestResult ''FAILURES: 1\<newline>BUILD SUCCESSFUL in 3s'' (Some Gradle)"
  by code_simp

text \<open>
  C1 (amended): for both recognised tools the verdict is positive exactly when the
  tool's success phrase ("build successful" for Gradle, "build success" for Maven)
  occurs in the lower-cased output or none of the tool's negative signals does. So a
  negative signal gives a negative verdict whenever the success phrase is absent, and
  the success phrase overrides the negative signals. (For Gradle the second positive
  test, "test" without "failed" and "failure", never overrides one: every negative
  signal of Gradle contains "failed" or "failure".)
\<close>

theorem classifier_verdict:
  "parseTestResult output (Some tool) =
     (str_includes (toLowerCase output) (success_phrase tool)
        \<or> \<not> negative_signal tool (toLowerCase output))"
proof (cases tool)
  case Maven
  then show ?thesis
    by (auto simp: parseTestResult_def negative_signal_def success_phrase_def Let_def)
next
  case Gradle
  then show ?thesis
    using failed_of_build_failed [of "toLowerCase output"]
      failed_of_test_failed [of "toLowerCase output"]
      failure_of_failures [of "toLowerCase output"]
    by (auto simp: parseTestResult_def negative_signal_def success_phrase_def Let_def)
qed

section \<open>Claims about the process runner\<close>


lemma settle_fields:
  "closeSeen (settle r st) = closeSeen st" "killSent (settle r st) = killSent st"
  "outcome (settle r st) = (case outcome st of None \<Rightarrow> Some r | Some x \<Rightarrow> Some x)"
  by (simp_all add: settle_def split: option.splits)

lemma on_close_cases:
  "on_close c out err = Inl (CommandExited c) \<or> on_close c out err = Inr (out @ ''\<newline>'' @ err)"
  by (simp add: on_close_def)

lemma handle_event_ok:
  assumes a: "settled_ok st"
  shows "settled_ok (handle_event ev st)"
proof (cases ev)
  case (StdoutData d)
  then show ?thesis using a
    by (simp add: handle_event_def settled_ok_def split: option.splits sum.splits exec_error.splits)
next
  case (StderrData d)
  then show ?thesis using a
    by (simp add: handle_event_def settled_ok_def split: option.splits sum.splits exec_error.splits)
next
  case (ErrorEv msg)
  then show ?thesis using a
    by (cases "outcome st")
      (auto simp: handle_event_def settled_ok_def settle_fields
        split: sum.splits exec_error.splits)
next
  case (CloseEv c)
  show ?thesis
  proof (cases "outcome st")
    case None
    then show ?thesis using CloseEv on_close_cases[of c "stdoutBuf st" "stderrBuf st"]
      by (auto simp: handle_event_def settled_ok_def settle_fields)
  next
    case (Some r)
    then show ?thesis using CloseEv a
      by (auto simp: handle_event_def settled_ok_def settle_fields
          split: sum.splits exec_error.splits)
  qed
next
  case TimerEv
  show ?thesis
  proof (cases "outcome st")
    case None
    then show ?thesis using TimerEv by (simp add: handle_event_def settled_ok_def settle_fields)
  next
    case (Some r)
    then show ?thesis using TimerEv a
      by (auto simp: handle_event_def settled_ok_def settle_fields
          split: sum.splits exec_error.splits)
  qed
qed

lemma run_events_ok: "settled_ok st \<Longrightarrow> settled_ok (run_events evs st)"
  by (induction evs arbitrary: st) (simp_all add: handle_event_ok)

lemma init_ok: "settled_ok runner_init"
  by (simp add: settled_ok_def runner_init_def)

lemma build_failed_run:
  "outcome (executeCommand [StdoutData ''BUILD FAILED'', CloseEv (Some 1)])
   = Some (Inr ''BUILD FAILED\<newline>'')"
  by (simp add: executeCommand_def handle_event_def settle_def runner_init_def on_close_def)

lemma timed_out_run:
  "outcome (executeCommand [TimerEv, CloseEv None]) = Some (Inl TimedOut)"
  by (simp add: executeCommand_def handle_event_def settle_def runner_init_def)

lemma silent_failure_run:
  "outcome (executeCommand [CloseEv (Some 127)]) = Some (Inl (CommandExited (Some 127)))"
  by (simp add: executeCommand_def handle_event_def settle_def runner_init_def on_close_def)

text \<open>
  C3 (as stated: on every exit path the spawned child is terminated before the call
  resolves or rejects, so no fatal condition is reported while it still runs). When the
  timer fires first, its handler sends the termination signal and rejects in the same
  turn: the promise is rejected and the \<open>close\<close> event of the child has not been
  delivered. When the \<open>error\<close> event comes first, its handler rejects and sends no signal
  at all.
\<close>

theorem runner_rejects_before_close:
  "outcome (executeCommand [TimerEv]) = Some (Inl TimedOut)
   \<and> \<not> closeSeen (executeCommand [TimerEv])
   \<and> outcome (executeCommand [ErrorEv ''spawn mvn ENOENT''])
       = Some (Inl (ProcessError ''spawn mvn ENOENT''))
   \<and> \<not> closeSeen (executeCommand [ErrorEv ''spawn mvn ENOENT''])
   \<and> \<not> killSent (executeCommand [ErrorEv ''spawn mvn ENOENT''])"
  by (simp add: executeCommand_def handle_event_def settle_def runner_init_def)

text \<open>
  C3 (amended): for every order of events, when the call has resolved, or has rejected
  with the exit-code error, the \<open>close\<close> event of the child has been delivered (the child
  has ended); when it has rejected with the timeout error, the termination signal has
  been sent to the child, whose end is not awaited. A rejection from the \<open>error\<close> handler
  says nothing about the child.
\<close>

theorem runner_settles:
  "(outcome (executeCommand evs) = Some (Inr output) \<longrightarrow> closeSeen (executeCommand evs))
   \<and> (outcome (executeCommand evs) = Some (Inl (CommandExited c))
        \<longrightarrow> closeSeen (executeCommand evs))
   \<and> (outcome (executeCommand evs) = Some (Inl TimedOut) \<longrightarrow> killSent (executeCommand evs))"
  using run_events_ok[OF init_ok, of evs]
  by (auto simp: executeCommand_def settled_ok_def)

theorem runner_settles_witness:
  "outcome (executeCommand [StdoutData ''BUILD FAILED'', CloseEv (Some 1)])
     = Some (Inr ''BUILD FAILED\<newline>'')
   \<and> closeSeen (executeCommand [StdoutData ''BUILD FAILED'', CloseEv (Some 1)])
   \<and> outcome (executeCommand [CloseEv (Some 127)]) = Some (Inl (CommandExited (Some 127)))
   \<and> closeSeen (executeCommand [CloseEv (Some 127)])
   \<and> outcome (executeCommand [TimerEv, CloseEv None]) = Some (Inl TimedOut)
   \<and> killSent (executeCommand [TimerEv, CloseEv None])"
  using runner_settles [of "[StdoutData ''BUILD FAILED'', CloseEv (Some 1)]"
      "''BUILD FAILED\<newline>''"]
    runner_settles [of "[CloseEv (Some 127)]" _ "Some 127"]
    runner_settles [of "[TimerEv, CloseEv None]"]
    build_failed_run silent_failure_run timed_out_run
  by blast

section \<open>Claims about target-name validation\<close>

lemma not_part_dot: "\<not> is_name_part (CHR ''.'')"
  by (simp add: is_name_part_def is_lower_def is_upper_def is_digit_def code_def)

lemma not_part_star: "\<not> is_name_part (CHR ''*'')"
  by (simp add: is_name_part_def is_lower_def is_upper_def is_digit_def code_def)

lemma dropWhile_all_append:
  "list_all P xs \<Longrightarrow> dropWhile P (xs @ ys) = dropWhile P ys"
  by (induction xs) auto

lemma takeWhile_all_append:
  "list_all P xs \<Longrightarrow> takeWhile P (xs @ ys) = xs @ takeWhile P ys"
  by (induction xs) auto

lemma tail_stop:
  "w = [] \<or> w = ''*'' \<Longrightarrow> dropWhile is_name_part (dotted js @ w) = dotted js @ w"
  by (cases js) (auto simp: dotted_def not_part_dot not_part_star)

lemma name_tail_sound:
  "name_tail r \<Longrightarrow>
     \<exists>js w. r = dotted js @ w \<and> list_all (\<lambda>j. j \<in> name_segments) js \<and> (w = [] \<or> w = ''*'')"
proof (induction r rule: name_tail.induct)
  case 1
  have "[] = dotted [] @ [] \<and> list_all (\<lambda>j. j \<in> name_segments) []"
    by (simp add: dotted_def)
  then show ?case by blast
next
  case (2 c cs)
  show ?case
  proof (cases "c = CHR ''.''")
    case True
    with 2(2) obtain d ds where cs: "cs = d # ds" and d: "is_name_start d"
      and t: "name_tail (dropWhile is_name_part ds)"
      by (auto split: list.splits)
    from 2(1)[OF True cs t] obtain js w where
      r: "dropWhile is_name_part ds = dotted js @ w"
      and js: "list_all (\<lambda>j. j \<in> name_segments) js" and w: "w = [] \<or> w = ''*''"
      by blast
    let ?j = "d # takeWhile is_name_part ds"
    have seg: "?j \<in> name_segments"
      using d by (auto simp: name_segments_def list_all_iff dest: set_takeWhileD)
    have "c # cs = dotted (?j # js) @ w"
      using True cs r takeWhile_dropWhile_id [of is_name_part ds]
      by (simp add: dotted_def)
    moreover have "list_all (\<lambda>j. j \<in> name_segments) (?j # js)" using seg js by simp
    ultimately show ?thesis using w by blast
  next
    case False
    with 2(2) have "c # cs = dotted [] @ ''*'' \<and> list_all (\<lambda>j. j \<in> name_segments) []"
      by (simp add: dotted_def)
    then show ?thesis by blast
  qed
qed

lemma name_tail_complete:
  "list_all (\<lambda>j. j \<in> name_segments) js \<Longrightarrow> w = [] \<or> w = ''*'' \<Longrightarrow> name_tail (dotted js @ w)"
proof (induction js)
  case Nil
  then show ?case by (auto simp: dotted_def)
next
  case (Cons j js)
  then obtain d ds where j: "j = d # ds" and d: "is_name_start d"
    and ds: "list_all is_name_part ds"
    by (auto simp: name_segments_def)
  have "dropWhile is_name_part (ds @ dotted js @ w) = dotted js @ w"
    using ds Cons.prems(2) by (simp add: dropWhile_all_append tail_stop)
  moreover have "dotted (j # js) @ w = CHR ''.'' # d # ds @ dotted js @ w"
    by (simp add: dotted_def j)
  ultimately show ?case using d Cons by simp
qed

lemma validPattern_iff: "validPattern s \<longleftrightarrow> s \<in> target_names"
proof
  assume "validPattern s"
  then obtain c cs where s: "s = c # cs" and c: "is_name_start c"
    and t: "name_tail (dropWhile is_name_part cs)"
    by (auto simp: validPattern_def split: list.splits)
  from name_tail_sound[OF t] obtain js w where
    r: "dropWhile is_name_part cs = dotted js @ w"
    and js: "list_all (\<lambda>j. j \<in> name_segments) js" and w: "w = [] \<or> w = ''*''"
    by blast
  let ?i = "c # takeWhile is_name_part cs"
  have "?i \<in> name_segments"
    using c by (auto simp: name_segments_def list_all_iff dest: set_takeWhileD)
  moreover have "s = ?i @ dotted js @ w"
    using s r takeWhile_dropWhile_id [of is_name_part cs] by simp
  ultimately show "s \<in> target_names"
    unfolding target_names_def using js w by blast
next
  assume "s \<in> target_names"
  then obtain i js w where s: "s = i @ dotted js @ w" and i: "i \<in> name_segments"
    and js: "list_all (\<lambda>j. j \<in> name_segments) js" and w: "w = [] \<or> w = ''*''"
    by (auto simp: target_names_def)
  from i obtain c cs where ic: "i = c # cs" and c: "is_name_start c"
    and cs: "list_all is_name_part cs"
    by (auto simp: name_segments_def)
  have "dropWhile is_name_part (cs @ dotted js @ w) = dotted js @ w"
    using cs w by (simp add: dropWhile_all_append tail_stop)
  then show "validPattern s"
    using s ic c name_tail_complete[OF js w] by (simp add: validPattern_def)
qed

lemma rejects_shell_text: "\<not> validateTestClassName ''UserServiceTest; rm -rf /''"
  by code_simp

lemma accepts_qualified_name: "validateTestClassName ''com.example.FooTest''"
  by code_simp

lemma accepts_wildcard: "validateTestClassName ''Foo*''"
  by code_simp

text \<open>
  C6: the validation accepts exactly the strings of the pattern's language that are at
  most 256 characters long; it rejects "UserServiceTest; rm -rf /" and accepts
  "com.example.FooTest" and "Foo*"; and a test run whose target name is rejected ends
  with the invalid-name error, whatever the workspace and the build tool are, so no
  invocation reaches the process runner.
\<close>

theorem target_name_validation:
  "(validateTestClassName s \<longleftrightarrow> s \<in> target_names \<and> length s \<le> 256)
   \<and> \<not> validateTestClassName ''UserServiceTest; rm -rf /''
   \<and> validateTestClassName ''com.example.FooTest''
   \<and> validateTestClassName ''Foo*''
   \<and> (\<not> validateTestClassName s \<longrightarrow>
        runTest_launch s workspaceFolder detected win32 = Inl InvalidTestClassName)"
  using rejects_shell_text accepts_qualified_name accepts_wildcard
  by (simp add: validateTestClassName_def validPattern_iff runTest_launch_def)

theorem target_name_validation_witness:
  "\<not> validateTestClassName ''UserServiceTest; rm -rf /''
   \<and> runTest_launch ''UserServiceTest; rm -rf /'' (Some ''/work/demo'') (Some Maven) False
        = Inl InvalidTestClassName
   \<and> ''Foo*'' \<in> target_names"
  using target_name_validation [of "''UserServiceTest; rm -rf /''" "Some ''/work/demo''"
      "Some Maven" False]
    target_name_validation [of "''Foo*''" None None False]
  by blast

section \<open>Facts about the scanner loop\<close>

lemma origin_endLine: "origin ls (m\<lparr>endLine := e\<rparr>) = origin ls m"
  by (simp add: origin_def)

lemma ranges_ok_mono: "ranges_ok n ms \<Longrightarrow> n \<le> k \<Longrightarrow> ranges_ok k ms"
  by (auto simp: ranges_ok_def list_all_iff)

lemma ranges_ok_snoc:
  "ranges_ok n ms \<Longrightarrow> list_all (\<lambda>m. endLine m < startLine c) ms \<Longrightarrow> 1 \<le> startLine c \<Longrightarrow>
   startLine c \<le> k \<Longrightarrow> n \<le> k \<Longrightarrow> ranges_ok k (ms @ [c\<lparr>endLine := k\<rparr>])"
  by (auto simp: ranges_ok_def list_all_iff sorted_wrt_append)

lemma current_ok_mono: "current_ok ls n ms cm \<Longrightarrow> n \<le> k \<Longrightarrow> current_ok ls k ms cm"
  by (auto simp: current_ok_def split: option.splits)

lemma scanner_inv_idle: "scanner_inv ls n st \<Longrightarrow> scanner_inv ls (Suc n) st"
  using ranges_ok_mono[of n "methods st" "Suc n"] current_ok_mono[of ls n "methods st" "currentMethod st" "Suc n"]
  by (simp add: scanner_inv_def)

lemma scanner_inv_push:
  assumes "scanner_inv ls n st" and "origin ls c" and "startLine c \<le> Suc n"
    and "list_all (\<lambda>m. endLine m < startLine c) (methods st)"
    and "methods st' = methods st @ [c\<lparr>endLine := Suc n\<rparr>]" and "currentMethod st' = None"
  shows "scanner_inv ls (Suc n) st'"
proof -
  have "1 \<le> startLine c" using assms(2) by (simp add: origin_def)
  then have "ranges_ok (Suc n) (methods st @ [c\<lparr>endLine := Suc n\<rparr>])"
    using assms ranges_ok_snoc[of n "methods st" c "Suc n"] by (simp add: scanner_inv_def)
  then show ?thesis
    using assms(1,2,5,6) by (simp add: scanner_inv_def current_ok_def origin_endLine)
qed

lemma scanner_inv_open:
  assumes "scanner_inv ls n st" and "origin ls c" and "startLine c = Suc n"
    and "methods st' = methods st" and "currentMethod st' = Some c" and "inMethod st'"
  shows "scanner_inv ls (Suc n) st'"
proof -
  have "list_all (\<lambda>m. endLine m < startLine c) (methods st)"
    using assms(1,3) by (auto simp: scanner_inv_def ranges_ok_def list_all_iff)
  moreover have "ranges_ok (Suc n) (methods st)"
    using assms(1) ranges_ok_mono[of n "methods st" "Suc n"] by (simp add: scanner_inv_def)
  ultimately show ?thesis
    using assms by (simp add: scanner_inv_def current_ok_def)
qed

lemma scanner_inv_same:
  assumes "scanner_inv ls n st" and "methods st' = methods st"
    and "currentMethod st' = currentMethod st" and "inMethod st' = inMethod st"
  shows "scanner_inv ls (Suc n) st'"
  using scanner_inv_idle[OF assms(1)] assms(2-4) by (simp add: scanner_inv_def)

lemma track_body_inv:
  assumes "scanner_inv ls n st" and "currentMethod st = Some cur" and "inMethod st"
  shows "scanner_inv ls (Suc n) (track_body (Suc n) line cur st)"
proof -
  let ?bc = "braceCount st + count_char CHR ''{'' line - count_char CHR ''}'' line"
  from assms(1,2) have c: "origin ls cur" "startLine cur \<le> n"
    "list_all (\<lambda>m. endLine m < startLine cur) (methods st)"
    by (simp_all add: scanner_inv_def current_ok_def)
  show ?thesis
  proof (cases "?bc \<le> 0")
    case True
    then have "track_body (Suc n) line cur st =
       st\<lparr>methods := methods st @ [cur\<lparr>endLine := Suc n\<rparr>],
              currentMethod := None, inMethod := False, braceCount := 0\<rparr>"
      by (simp add: track_body_def Let_def)
    then show ?thesis
      using scanner_inv_push[OF assms(1) c(1) _ c(3)] c(2) by simp
  next
    case False
    then have "track_body (Suc n) line cur st = st\<lparr>braceCount := ?bc\<rparr>"
      by (simp add: track_body_def Let_def)
    then show ?thesis using scanner_inv_same[OF assms(1)] by simp
  qed
qed

lemma try_declaration_inv:
  assumes "scanner_inv ls n st" and "currentMethod st = None"
    and "n < length ls" and "line = ls ! n"
  shows "scanner_inv ls (Suc n) (try_declaration (Suc n) line st)"
proof (cases "classStarted st")
  case False
  then have "try_declaration (Suc n) line st = st" by (simp add: try_declaration_def)
  then show ?thesis using scanner_inv_idle[OF assms(1)] by simp
next
  case True
  show ?thesis
  proof (cases "methodRegex line")
    case None
    then have "try_declaration (Suc n) line st = st" by (simp add: try_declaration_def)
    then show ?thesis using scanner_inv_idle[OF assms(1)] by simp
  next
    case (Some caps)
    obtain g t nm ps where caps: "caps = (g, t, nm, ps)" by (cases caps) auto
    show ?thesis
    proof (cases "t = nm")
      case True
      then have "try_declaration (Suc n) line st = st"
        using Some caps by (simp add: try_declaration_def)
      then show ?thesis using scanner_inv_idle[OF assms(1)] by simp
    next
      case False
      define mods where "mods = filter (\<lambda>m. m \<noteq> []) (split_ws (trim g))"
      define cur where "cur = \<lparr>name = nm,
        signature = trim (join_sp mods @ '' '' @ t @ '' '' @ nm @ ''('' @ trim ps @ '')''),
        returnType = t, parameters = trim ps, modifiers = mods,
        startLine = Suc n, endLine = Suc n\<rparr>"
      define bc where "bc = count_char CHR ''{'' line - count_char CHR ''}'' line"
      have oc: "origin ls cur"
        using Some caps False assms(3,4) by (auto simp: origin_def cur_def)
      have sc: "startLine cur = Suc n" by (simp add: cur_def)
      have lt: "list_all (\<lambda>m. endLine m < startLine cur) (methods st)"
        using assms(1) sc by (auto simp: scanner_inv_def ranges_ok_def list_all_iff)
      have eq: "try_declaration (Suc n) line st =
        (if str_includes line ''{''
         then (if bc > 0
               then st\<lparr>currentMethod := Some cur, braceCount := bc, inMethod := True\<rparr>
               else st\<lparr>methods := methods st @ [cur\<lparr>endLine := Suc n\<rparr>],
                       currentMethod := None, braceCount := bc\<rparr>)
         else st\<lparr>currentMethod := Some cur, inMethod := True, braceCount := 0\<rparr>)"
        using Some caps False True
        by (simp add: try_declaration_def cur_def mods_def bc_def Let_def)
      show ?thesis
      proof (cases "str_includes line ''{'' \<and> \<not> bc > 0")
        case True
        then have "try_declaration (Suc n) line st =
            st\<lparr>methods := methods st @ [cur\<lparr>endLine := Suc n\<rparr>],
                       currentMethod := None, braceCount := bc\<rparr>"
          using eq by simp
        then show ?thesis using scanner_inv_push[OF assms(1) oc _ lt] sc by simp
      next
        case False
        then have "methods (try_declaration (Suc n) line st) = methods st
            \<and> currentMethod (try_declaration (Suc n) line st) = Some cur
            \<and> inMethod (try_declaration (Suc n) line st)"
          using eq by auto
        then show ?thesis using scanner_inv_open[OF assms(1) oc sc] by simp
      qed
    qed
  qed
qed

lemma scan_line_inv:
  assumes "scanner_inv ls n st" and "n < length ls" and "line = ls ! n"
  shows "scanner_inv ls (Suc n) (scan_line (Suc n) line st)"
proof -
  have cls: "scanner_inv ls (Suc n) (st\<lparr>classStarted := True\<rparr>)"
    using scanner_inv_same[OF assms(1)] by simp
  have idle: "scanner_inv ls (Suc n) st" by (rule scanner_inv_idle[OF assms(1)])
  have work: "scanner_inv ls (Suc n)
     (case currentMethod st of
        Some cur \<Rightarrow>
          if inMethod st then track_body (Suc n) line cur st
          else try_declaration (Suc n) line st
      | None \<Rightarrow> try_declaration (Suc n) line st)"
  proof (cases "currentMethod st")
    case None
    then show ?thesis using try_declaration_inv[OF assms(1) None assms(2,3)] by simp
  next
    case (Some cur)
    then have "inMethod st" using assms(1) by (simp add: scanner_inv_def)
    then show ?thesis using track_body_inv[OF assms(1) Some] Some by simp
  qed
  show ?thesis
    unfolding scan_line_def Let_def using cls idle work by (simp del: One_nat_def)
qed

lemma scan_lines_inv:
  "scanner_inv (pre @ ls) (length pre) st \<Longrightarrow>
   scanner_inv (pre @ ls) (length pre + length ls) (scan_lines (length pre) ls st)"
proof (induction ls arbitrary: pre st)
  case Nil
  then show ?case by simp
next
  case (Cons l ls)
  have "scanner_inv (pre @ l # ls) (Suc (length pre)) (scan_line (Suc (length pre)) l st)"
    using scan_line_inv[OF Cons.prems, of l] by simp
  then have "scanner_inv ((pre @ [l]) @ ls) (length (pre @ [l]))
      (scan_line (Suc (length pre)) l st)" by simp
  from Cons.IH[OF this] show ?case by simp
qed

lemma scanner_inv_init: "scanner_inv ls 0 scanner_init"
  by (simp add: scanner_inv_def scanner_init_def ranges_ok_def current_ok_def)

lemma extractMethods_inv:
  "ranges_ok (length (split_nl src)) (extractMethods src)
   \<and> list_all (origin (split_nl src)) (extractMethods src)"
  using scan_lines_inv[of "[]" "split_nl src" scanner_init] scanner_inv_init
  by (simp add: extractMethods_def scanner_inv_def)


lemma scan_line_before_class:
  assumes "\<not> class_decl_line l" and "\<not> classStarted st" and "currentMethod st = None"
  shows "scan_line n l st = st"
  using assms by (simp add: scan_line_def try_declaration_def Let_def)

lemma scan_lines_before_class:
  "\<not> list_ex class_decl_line ls \<Longrightarrow> \<not> classStarted st \<Longrightarrow> currentMethod st = None \<Longrightarrow>
   scan_lines i ls st = st"
  by (induction ls arbitrary: i) (simp_all add: scan_line_before_class)

lemma calculator_members:
  "extractMethods ''package com.example;\<newline>public class Calculator {\<newline>    public int add(int a, int b) {\<newline>        return a + b;\<newline>    }\<newline>}''
   = [\<lparr>name = ''add'', signature = ''public int add(int a, int b)'', returnType = ''int'',
       parameters = ''int a, int b'', modifiers = [''public''], startLine = 3, endLine = 5\<rparr>]"
  by code_simp

lemma after_constructor_members:
  "extractMethods ''class A {\<newline>    A A() {\<newline>    }\<newline>    int size() { return 1; }\<newline>}''
   = [\<lparr>name = ''size'', signature = ''int size()'', returnType = ''int'', parameters = [],
       modifiers = [], startLine = 4, endLine = 4\<rparr>]"
  by code_simp

section \<open>Claims about the structural scanner\<close>

text \<open>
  C5 (as stated: on a unit whose members all have balanced braces the scanner emits one
  MemberSignature per member). A declaration with no opening brace on its line is
  tracked as an open body from depth zero, so a bodiless member takes the lines of the
  next member into its range: the first unit below has the two members \<open>area\<close> and
  \<open>twice\<close>, both balanced, and the scanner emits the single signature \<open>area\<close> with the
  lines 2 to 5. A line that starts with an annotation is skipped before the declaration
  pattern is tried: the member of the second unit, balanced as well, is not emitted.
\<close>

theorem scanner_merges_bodiless_member:
  "extractMethods ''public abstract class Shape {\<newline>    abstract double area();\<newline>    double twice() {\<newline>        return 2 * area();\<newline>    }\<newline>}''
   = [\<lparr>name = ''area'', signature = ''abstract double area()'', returnType = ''double'',
       parameters = [], modifiers = [''abstract''], startLine = 2, endLine = 5\<rparr>]
   \<and> extractMethods ''class A {\<newline>    @Override public String toString() {\<newline>        return label;\<newline>    }\<newline>}''
   = []"
  by code_simp

text \<open>
  C5 (amended): for every unit text, balanced or not, each emitted MemberSignature has
  \<open>1 \<le> startLine \<le> endLine \<le>\<close> the number of lines, each one ends before every later
  one of the list starts (so no two ranges overlap and the list is in the order of the
  declaration lines), and each one starts at a line that matches the member-declaration
  pattern with the signature's result type and name. That the signatures are one per
  member is not claimed.
\<close>

theorem scanner_ranges:
  "list_all (\<lambda>m. 1 \<le> startLine m \<and> startLine m \<le> endLine m
              \<and> endLine m \<le> length (split_nl src)) (extractMethods src)
   \<and> sorted_wrt (\<lambda>a b. endLine a < startLine b) (extractMethods src)
   \<and> list_all (\<lambda>m. \<exists>g ps. methodRegex (split_nl src ! (startLine m - 1))
                              = Some (g, returnType m, name m, ps)) (extractMethods src)"
proof -
  have "ranges_ok (length (split_nl src)) (extractMethods src)"
    and o: "list_all (origin (split_nl src)) (extractMethods src)"
    using extractMethods_inv by simp_all
  then show ?thesis by (auto simp: ranges_ok_def origin_def list_all_iff)
qed

theorem scanner_ranges_witness:
  "extractMethods ''package com.example;\<newline>public class Calculator {\<newline>    public int add(int a, int b) {\<newline>        return a + b;\<newline>    }\<newline>}''
   = [\<lparr>name = ''add'', signature = ''public int add(int a, int b)'', returnType = ''int'',
       parameters = ''int a, int b'', modifiers = [''public''], startLine = 3, endLine = 5\<rparr>]
   \<and> sorted_wrt (\<lambda>a b. endLine a < startLine b)
        (extractMethods ''package com.example;\<newline>public class Calculator {\<newline>    public int add(int a, int b) {\<newline>        return a + b;\<newline>    }\<newline>}'')"
  using scanner_ranges [of "''package com.example;\<newline>public class Calculator {\<newline>    public int add(int a, int b) {\<newline>        return a + b;\<newline>    }\<newline>}''"]
    calculator_members
  by blast

text \<open>
  C9: when a line of the text matches the member-declaration pattern and its captured
  result type equals its captured name, no emitted member starts at that line; and no
  emitted member at all has a result type equal to its name.
\<close>

theorem constructor_heuristic:
  assumes "i < length (split_nl src)"
    and "methodRegex (split_nl src ! i) = Some (g, t, t, ps)"
  shows "list_all (\<lambda>m. startLine m \<noteq> Suc i \<and> returnType m \<noteq> name m) (extractMethods src)"
proof -
  have "list_all (origin (split_nl src)) (extractMethods src)"
    using extractMethods_inv by simp
  moreover have "startLine m \<noteq> Suc i \<and> returnType m \<noteq> name m"
    if "origin (split_nl src) m" for m
    using that assms(2) by (auto simp: origin_def)
  ultimately show ?thesis by (simp add: list_all_iff)
qed

theorem constructor_heuristic_witness:
  "methodRegex (split_nl ''class A {\<newline>    A A() {\<newline>    }\<newline>    int size() { return 1; }\<newline>}'' ! 1)
     = Some ([], ''A'', ''A'', [])
   \<and> list_all (\<lambda>m. startLine m \<noteq> Suc 1 \<and> returnType m \<noteq> name m)
        (extractMethods ''class A {\<newline>    A A() {\<newline>    }\<newline>    int size() { return 1; }\<newline>}'')
   \<and> map name (extractMethods ''class A {\<newline>    A A() {\<newline>    }\<newline>    int size() { return 1; }\<newline>}'')
       = [''size'']"
proof -
  let ?src = "''class A {\<newline>    A A() {\<newline>    }\<newline>    int size() { return 1; }\<newline>}''"
  have h1: "1 < length (split_nl ?src)" by code_simp
  have h2: "methodRegex (split_nl ?src ! 1) = Some ([], ''A'', ''A'', [])" by code_simp
  from constructor_heuristic[OF h1 h2] h2 after_constructor_members show ?thesis by simp
qed

text \<open>
  C10: when no line of the text matches the class-declaration pattern, the scanner
  returns the empty member list, whatever lines match the member-declaration pattern.
\<close>

theorem no_class_no_members:
  "\<not> list_ex class_decl_line (split_nl src) \<Longrightarrow> extractMethods src = []"
  by (simp add: extractMethods_def scan_lines_before_class scanner_init_def)

theorem no_class_no_members_witness:
  "\<not> list_ex class_decl_line
        (split_nl ''public interface Shape {\<newline>    double area();\<newline>}'')
   \<and> methodRegex ''    double area();'' = Some ([], ''double'', ''area'', [])
   \<and> extractMethods ''public interface Shape {\<newline>    double area();\<newline>}'' = []"
proof -
  have h: "\<not> list_ex class_decl_line
              (split_nl ''public interface Shape {\<newline>    double area();\<newline>}'')"
    by code_simp
  have m: "methodRegex ''    double area();'' = Some ([], ''double'', ''area'', [])"
    by code_simp
  from no_class_no_members[OF h] h m show ?thesis by simp
qed

section \<open>Facts about the directive merger\<close>

lemma import_not_class: "import_line l \<Longrightarrow> \<not> merge_class_line l"
  by (auto simp: import_line_def merge_class_line_def opt_def kw_ws_def lit_def prefix_def
      split: option.splits if_splits Option.bind_splits)

lemma find_insert_none:
  "\<not> list_ex import_line (head_lines ls) \<Longrightarrow> find_insert ls i ins = ins"
  by (induction ls arbitrary: i) (auto simp: head_lines_def import_not_class)

lemma find_insert_some:
  "list_ex import_line (head_lines ls) \<Longrightarrow>
   \<exists>j < length (head_lines ls). find_insert ls i ins = i + Suc j \<and> import_line (ls ! j)
      \<and> \<not> list_ex import_line (drop (Suc j) (head_lines ls))"
proof (induction ls arbitrary: i ins)
  case Nil
  then show ?case by (simp add: head_lines_def)
next
  case (Cons l ls)
  then have ncl: "\<not> merge_class_line l" by (auto simp: head_lines_def split: if_splits)
  then have hl: "head_lines (l # ls) = l # head_lines ls" by (simp add: head_lines_def)
  show ?case
  proof (cases "list_ex import_line (head_lines ls)")
    case True
    let ?ins = "if import_line l then i + 1 else ins"
    from Cons.IH[OF True, of "i + 1" ?ins] obtain j where j: "j < length (head_lines ls)"
      "find_insert ls (i + 1) ?ins = i + 1 + Suc j" "import_line (ls ! j)"
      "\<not> list_ex import_line (drop (Suc j) (head_lines ls))" by blast
    have "find_insert (l # ls) i ins = i + Suc (Suc j)"
      using j(2) ncl by (cases "import_line l") simp_all
    then show ?thesis using j hl by (intro exI[of _ "Suc j"]) simp
  next
    case False
    with Cons.prems hl have il: "import_line l" by simp
    have "find_insert (l # ls) i ins = i + Suc 0"
      using il find_insert_none[OF False] by simp
    then show ?thesis using il hl False by (intro exI[of _ 0]) simp
  qed
qed

subsection \<open>Characters\<close>

lemma space_newline: "is_space (CHR ''\<newline>'')"
  by (simp add: is_space_def code_def)

lemma wdot_not_space: "is_word_or_dot c \<Longrightarrow> \<not> is_space c"
  by (auto simp: is_word_or_dot_def is_word_def is_space_def is_upper_def is_lower_def
      is_digit_def code_def)

lemma not_wdot_newline: "\<not> is_word_or_dot (CHR ''\<newline>'')"
  using wdot_not_space space_newline by blast

lemma not_wdot_semicolon: "\<not> is_word_or_dot (CHR '';'')"
  by (simp add: is_word_or_dot_def is_word_def is_upper_def is_lower_def is_digit_def code_def)

lemma not_wdot_star: "\<not> is_word_or_dot (CHR ''*'')"
  by (simp add: is_word_or_dot_def is_word_def is_upper_def is_lower_def is_digit_def code_def)

lemma not_wdot_blank: "\<not> is_word_or_dot (CHR '' '')"
  by (simp add: is_word_or_dot_def is_word_def is_upper_def is_lower_def is_digit_def code_def)

lemma not_space_semicolon: "\<not> is_space (CHR '';'')"
  by (simp add: is_space_def code_def)

lemma not_space_star: "\<not> is_space (CHR ''*'')"
  by (simp add: is_space_def code_def)

lemma space_blank: "is_space (CHR '' '')"
  by (simp add: is_space_def code_def)

lemma wdot_import: "list_all is_word_or_dot ''import''"
  by (simp add: is_word_or_dot_def is_word_def is_upper_def is_lower_def is_digit_def code_def)

lemma cap_ok_hd: "cap_ok x \<Longrightarrow> \<exists>c cs. x = c # cs \<and> is_word_or_dot c"
proof -
  assume "cap_ok x"
  then consider "x \<noteq> []" "list_all is_word_or_dot x"
    | g where "x = g @ ''*''" "list_all is_word_or_dot g" "2 \<le> length g"
    unfolding cap_ok_def by blast
  then show ?thesis
  proof cases
    case 1
    then show ?thesis by (cases x) auto
  next
    case 2
    then show ?thesis by (cases g) auto
  qed
qed

subsection \<open>An inserted import statement is matched as written\<close>

lemma semicolon_here: "semicolon (CHR '';'' # r) = Some r"
  by (simp add: semicolon_def skip_ws_def lit_def not_space_semicolon)

lemma import_tail_stmt: "cap_ok x \<Longrightarrow> import_tail (x @ CHR '';'' # r) = Some (x, r)"
proof -
  assume "cap_ok x"
  then consider "x \<noteq> []" "list_all is_word_or_dot x"
    | g where "x = g @ ''*''" "list_all is_word_or_dot g" "2 \<le> length g" "last g = CHR ''.''"
    unfolding cap_ok_def by blast
  then show ?thesis
  proof cases
    case 1
    then have "takeWhile is_word_or_dot (x @ CHR '';'' # r) = x"
      "dropWhile is_word_or_dot (x @ CHR '';'' # r) = CHR '';'' # r"
      by (simp_all add: takeWhile_all_append dropWhile_all_append not_wdot_semicolon)
    then show ?thesis using 1(1) by (simp add: import_tail_def semicolon_here)
  next
    case 2
    have t: "takeWhile is_word_or_dot (x @ CHR '';'' # r) = g"
      and d: "dropWhile is_word_or_dot (x @ CHR '';'' # r) = CHR ''*'' # CHR '';'' # r"
      using 2(1,2) by (simp_all add: takeWhile_all_append dropWhile_all_append not_wdot_star)
    have s: "semicolon (CHR ''*'' # CHR '';'' # r) = None"
      by (simp add: semicolon_def skip_ws_def lit_def not_space_star)
    have g: "g \<noteq> []" using 2(3) by auto
    show ?thesis
      unfolding import_tail_def t d Let_def using s g 2 semicolon_here
      by (simp add: lit_def)
  qed
qed

lemma import_match_stmt: "cap_ok x \<Longrightarrow> import_match (import_stmt x @ r) = Some (x, r)"
proof -
  assume c: "cap_ok x"
  from cap_ok_hd[OF c] obtain a as where x: "x = a # as" and a: "is_word_or_dot a" by blast
  have ns: "\<not> is_space a" using a wdot_not_space by blast
  have 1: "skip_ws (import_stmt x @ r) = ''import '' @ x @ CHR '';'' # r"
    by (simp add: skip_ws_def import_stmt_def is_space_def code_def)
  have 2: "lit ''import'' (''import '' @ x @ CHR '';'' # r) = Some (CHR '' '' # x @ CHR '';'' # r)"
    by (simp add: lit_def)
  have 3: "ws_plus (CHR '' '' # x @ CHR '';'' # r) = Some (x @ CHR '';'' # r)"
    using ns by (simp add: ws_plus_def space_blank x)
  show ?thesis
    by (simp only: import_match_def 1 2 3 option.case import_tail_stmt[OF c])
qed


subsection \<open>Matching in front of an inserted import statement\<close>

text \<open>A match attempt that starts in a text \<open>t\<close> ends the same way when a line feed and
  an inserted import statement follow \<open>t\<close>, unless \<open>t\<close> is blank: no attempt reaches into
  the inserted statement and succeeds there.\<close>

lemma skip_ws_stmt: "skip_ws (import_stmt x @ r) = import_stmt x @ r"
  by (simp add: skip_ws_def import_stmt_def is_space_def code_def)

lemma skip_ws_ctx:
  "skip_ws (t @ CHR ''\<newline>'' # import_stmt x @ r) =
     (if list_all is_space t then import_stmt x @ r
      else skip_ws t @ CHR ''\<newline>'' # import_stmt x @ r)"
proof (induction t)
  case Nil
  show ?case using skip_ws_stmt[of x r] by (simp add: skip_ws_def space_newline)
next
  case (Cons a t)
  then show ?case by (simp add: skip_ws_def)
qed

lemma skip_ws_all: "list_all is_space t \<Longrightarrow> skip_ws t = []"
  by (induction t) (auto simp: skip_ws_def)

lemma prefix_ctx: "c \<notin> set k \<Longrightarrow> prefix k (t @ c # u) \<longleftrightarrow> prefix k t"
proof (induction t arbitrary: k)
  case Nil
  then show ?case by (cases k) auto
next
  case (Cons a t)
  then show ?case by (cases k) auto
qed

lemma lit_ctx:
  "c \<notin> set k \<Longrightarrow> lit k (t @ c # u) = map_option (\<lambda>r. r @ c # u) (lit k t)"
  by (auto simp: lit_def prefix_ctx dest: prefix_length_le)

lemma stmt_no_semicolon: "lit '';'' (import_stmt x @ r) = None"
  by (simp add: lit_def import_stmt_def)

lemma semicolon_ctx:
  "semicolon (t @ CHR ''\<newline>'' # import_stmt x @ r) =
     map_option (\<lambda>r'. r' @ CHR ''\<newline>'' # import_stmt x @ r) (semicolon t)"
proof (cases "list_all is_space t")
  case True
  then show ?thesis
    using stmt_no_semicolon[of x r]
    by (simp add: semicolon_def skip_ws_ctx skip_ws_all) (simp add: lit_def)
next
  case False
  then show ?thesis
    by (simp add: semicolon_def skip_ws_ctx lit_ctx)
qed

lemma takeWhile_ctx: "\<not> P c \<Longrightarrow> takeWhile P (t @ c # u) = takeWhile P t"
  by (induction t) auto

lemma dropWhile_ctx: "\<not> P c \<Longrightarrow> dropWhile P (t @ c # u) = dropWhile P t @ c # u"
  by (induction t) auto

lemma import_tail_ctx:
  "import_tail (t @ CHR ''\<newline>'' # import_stmt x @ r) =
     map_option (\<lambda>(g, r'). (g, r' @ CHR ''\<newline>'' # import_stmt x @ r)) (import_tail t)"
proof -
  let ?ctx = "CHR ''\<newline>'' # import_stmt x @ r"
  have t: "takeWhile is_word_or_dot (t @ ?ctx) = takeWhile is_word_or_dot t"
    by (rule takeWhile_ctx[where P = is_word_or_dot, OF not_wdot_newline])
  have d: "dropWhile is_word_or_dot (t @ ?ctx) = dropWhile is_word_or_dot t @ ?ctx"
    by (rule dropWhile_ctx[where P = is_word_or_dot, OF not_wdot_newline])
  have st: "lit ''*'' (u @ ?ctx) = map_option (\<lambda>r'. r' @ ?ctx) (lit ''*'' u)" for u
    by (rule lit_ctx) simp
  show ?thesis
    unfolding import_tail_def t d Let_def
    by (auto simp: semicolon_ctx st option.map_comp comp_def split: option.splits)
qed

lemma import_tail_dead: "cap_ok x \<Longrightarrow> import_tail (import_stmt x @ r) = None"
proof -
  assume c: "cap_ok x"
  from cap_ok_hd[OF c] obtain a as where x: "x = a # as" and a: "is_word_or_dot a" by blast
  have "import_stmt x @ r = ''import'' @ CHR '' '' # x @ CHR '';'' # r"
    by (simp add: import_stmt_def)
  then have t: "takeWhile is_word_or_dot (import_stmt x @ r) = ''import''"
    and d: "dropWhile is_word_or_dot (import_stmt x @ r) = CHR '' '' # x @ CHR '';'' # r"
    using wdot_import
    by (simp_all only: takeWhile_all_append dropWhile_all_append takeWhile.simps dropWhile.simps
        not_wdot_blank if_False append_Nil2)
  have "skip_ws (CHR '' '' # x @ CHR '';'' # r) = x @ CHR '';'' # r"
    using a wdot_not_space by (simp add: skip_ws_def space_blank x)
  then have s: "semicolon (CHR '' '' # x @ CHR '';'' # r) = None"
    using a not_wdot_semicolon by (auto simp: semicolon_def lit_def x)
  show ?thesis unfolding import_tail_def t d Let_def using s by simp
qed

lemma import_tail_Nil: "import_tail [] = None"
  by (simp add: import_tail_def)

lemma after_import_ctx:
  assumes "cap_ok x"
  shows "after_import (t @ CHR ''\<newline>'' # import_stmt x @ r) =
     map_option (\<lambda>(g, r'). (g, r' @ CHR ''\<newline>'' # import_stmt x @ r)) (after_import t)"
proof (cases t)
  case Nil
  have "ws_plus (CHR ''\<newline>'' # import_stmt x @ r) = Some (import_stmt x @ r)"
    using skip_ws_stmt[of x r] by (simp add: ws_plus_def space_newline skip_ws_def)
  then show ?thesis
    using Nil import_tail_dead[OF assms] by (simp add: after_import_def ws_plus_def)
next
  case (Cons a t')
  show ?thesis
  proof (cases "is_space a")
    case False
    then show ?thesis using Cons by (simp add: after_import_def ws_plus_def)
  next
    case True
    have w: "ws_plus (t @ CHR ''\<newline>'' # import_stmt x @ r)
        = Some (skip_ws (t' @ CHR ''\<newline>'' # import_stmt x @ r))"
      "ws_plus t = Some (skip_ws t')"
      using Cons True by (simp_all add: ws_plus_def skip_ws_def)
    show ?thesis
    proof (cases "list_all is_space t'")
      case True
      then show ?thesis
        unfolding after_import_def w
        using import_tail_dead[OF assms] by (simp add: skip_ws_ctx skip_ws_all import_tail_Nil)
    next
      case False
      then show ?thesis
        unfolding after_import_def w by (simp add: skip_ws_ctx import_tail_ctx)
    qed
  qed
qed

lemma import_match_alt:
  "import_match s = (case lit ''import'' (skip_ws s) of None \<Rightarrow> None | Some r0 \<Rightarrow> after_import r0)"
  by (simp add: import_match_def after_import_def split: option.splits)

lemma import_match_ctx:
  assumes "cap_ok x"
  shows "import_match (t @ CHR ''\<newline>'' # import_stmt x @ r) =
     (if list_all is_space t then Some (x, r)
      else map_option (\<lambda>(g, r'). (g, r' @ CHR ''\<newline>'' # import_stmt x @ r)) (import_match t))"
proof (cases "list_all is_space t")
  case True
  have "import_match (t @ CHR ''\<newline>'' # import_stmt x @ r) = import_match (import_stmt x @ r)"
    using True by (simp add: import_match_def skip_ws_ctx skip_ws_stmt)
  then show ?thesis using True import_match_stmt[OF assms] by simp
next
  case False
  have l: "lit ''import'' (u @ CHR ''\<newline>'' # import_stmt x @ r)
      = map_option (\<lambda>r'. r' @ CHR ''\<newline>'' # import_stmt x @ r) (lit ''import'' u)" for u
    by (rule lit_ctx) simp
  show ?thesis
    using False
    by (simp add: import_match_alt skip_ws_ctx l after_import_ctx[OF assms] split: option.splits)
qed

lemma import_match_blank: "list_all is_space t \<Longrightarrow> import_match t = None"
  by (simp add: import_match_def skip_ws_all lit_def)

lemma scan_blank: "list_all is_space t \<Longrightarrow> scan_imports b t = []"
proof (induction t arbitrary: b)
  case Nil
  show ?case by simp
next
  case (Cons a t)
  from Cons.prems have "import_match (a # t) = None" by (rule import_match_blank)
  then show ?case using Cons by simp
qed


lemma line_terminator_newline: "is_line_terminator (CHR ''\<newline>'')"
  by (simp add: is_line_terminator_def code_def)

lemma scan_stmt:
  "cap_ok x \<Longrightarrow> scan_imports True (import_stmt x @ r) = x # scan_imports False r"
proof -
  assume c: "cap_ok x"
  obtain a as where "import_stmt x @ r = a # as" by (cases "import_stmt x @ r") (auto simp: import_stmt_def)
  then show ?thesis using import_match_stmt[OF c, of r] by simp
qed

lemma scan_imports_Cons_None:
  "(if bol then import_match (c # cs) else None) = None \<Longrightarrow>
   scan_imports bol (c # cs) = scan_imports (is_line_terminator c) cs"
  by (simp only: scan_imports.simps option.case)

lemma scan_imports_Cons_Some:
  "bol \<Longrightarrow> import_match (c # cs) = Some (g, r) \<Longrightarrow>
   scan_imports bol (c # cs) = g # scan_imports False r"
  by simp

lemma scan_split:
  assumes "cap_ok x"
  shows "scan_imports b (p @ CHR ''\<newline>'' # import_stmt x @ r)
         = scan_imports b p @ scan_imports True (import_stmt x @ r)"
proof (induction b p rule: scan_imports.induct)
  case (1 bol)
  show ?case
  proof (cases bol)
    case True
    have "import_match (CHR ''\<newline>'' # import_stmt x @ r) = Some (x, r)"
      using import_match_ctx[OF assms, of "[]" r] by simp
    then show ?thesis using True scan_stmt[OF assms, of r] by simp
  next
    case False
    then show ?thesis by (simp add: line_terminator_newline)
  qed
next
  case (2 bol c cs)
  let ?ctx = "CHR ''\<newline>'' # import_stmt x @ r"
  have app: "(c # cs) @ ?ctx = c # (cs @ ?ctx)" by simp
  show ?case
  proof (cases "bol \<and> list_all is_space (c # cs)")
    case True
    then have "import_match (c # (cs @ ?ctx)) = Some (x, r)"
      using import_match_ctx[OF assms, of "c # cs" r] by simp
    then have "scan_imports bol (c # (cs @ ?ctx)) = x # scan_imports False r"
      using True scan_imports_Cons_Some by blast
    moreover have "scan_imports bol (c # cs) = []" using True scan_blank by blast
    ultimately show ?thesis using scan_stmt[OF assms, of r] by (simp only: app append_Nil)
  next
    case False
    show ?thesis
    proof (cases "if bol then import_match (c # cs) else None")
      case None
      have "(if bol then import_match (c # (cs @ ?ctx)) else None) = None"
      proof (cases bol)
        case True
        then have "import_match (c # cs) = None" "\<not> list_all is_space (c # cs)"
          using None False by simp_all
        then show ?thesis using True import_match_ctx[OF assms, of "c # cs" r] by simp
      next
        case False
        then show ?thesis by simp
      qed
      then have "scan_imports bol (c # (cs @ ?ctx))
          = scan_imports (is_line_terminator c) (cs @ ?ctx)"
        by (rule scan_imports_Cons_None)
      moreover have "scan_imports bol (c # cs) = scan_imports (is_line_terminator c) cs"
        using None by (rule scan_imports_Cons_None)
      ultimately show ?thesis using 2(1)[OF None] by (simp only: app)
    next
      case (Some m)
      obtain g r0 where m: "m = (g, r0)" by (cases m) auto
      from Some m have bol: bol and im: "import_match (c # cs) = Some (g, r0)"
        by (auto split: if_splits)
      have "import_match (c # (cs @ ?ctx)) = Some (g, r0 @ ?ctx)"
        using False bol im import_match_ctx[OF assms, of "c # cs" r] by simp
      then have "scan_imports bol (c # (cs @ ?ctx)) = g # scan_imports False (r0 @ ?ctx)"
        using bol scan_imports_Cons_Some by blast
      moreover have "scan_imports bol (c # cs) = g # scan_imports False r0"
        using bol im scan_imports_Cons_Some by blast
      ultimately show ?thesis
        using 2(2)[OF Some m[symmetric]] by (simp only: app append_Cons)
    qed
  qed
qed

lemma scan_after_newline: "scan_imports False (CHR ''\<newline>'' # w) = scan_imports True w"
  by (simp add: line_terminator_newline)

lemma join_nl_Cons: "ls \<noteq> [] \<Longrightarrow> join_nl (l # ls) = l @ CHR ''\<newline>'' # join_nl ls"
  by (cases ls) auto

lemma join_nl_append:
  "a \<noteq> [] \<Longrightarrow> b \<noteq> [] \<Longrightarrow> join_nl (a @ b) = join_nl a @ CHR ''\<newline>'' # join_nl b"
proof (induction a rule: join_nl.induct)
  case 1
  then show ?case by simp
next
  case (2 l)
  then show ?case by (simp add: join_nl_Cons)
next
  case (3 l m ls)
  then show ?case by simp
qed

lemma scan_block:
  "list_all cap_ok xs \<Longrightarrow> xs \<noteq> [] \<Longrightarrow>
   scan_imports True (join_nl (map import_stmt xs) @ rest) = xs @ scan_imports False rest"
proof (induction xs)
  case Nil
  then show ?case by simp
next
  case (Cons x xs)
  show ?case
  proof (cases "xs = []")
    case True
    then show ?thesis using Cons.prems scan_stmt[of x rest] by simp
  next
    case False
    then have "join_nl (map import_stmt (x # xs)) @ rest
       = import_stmt x @ (CHR ''\<newline>'' # join_nl (map import_stmt xs) @ rest)"
      by (simp add: join_nl_Cons)
    then show ?thesis
      using Cons False scan_stmt[of x] by (simp add: line_terminator_newline)
  qed
qed

lemma block_head:
  "xs \<noteq> [] \<Longrightarrow> \<exists>r. join_nl (map import_stmt xs) @ rest = import_stmt (hd xs) @ r"
proof (cases xs)
  case Nil
  assume "xs \<noteq> []"
  with Nil show ?thesis by simp
next
  case (Cons x ys)
  show ?thesis
  proof (cases "ys = []")
    case True
    then show ?thesis using Cons by simp
  next
    case False
    then show ?thesis using Cons by (simp add: join_nl_Cons)
  qed
qed

lemma scan_merged:
  assumes "list_all cap_ok xs" and "xs \<noteq> []" and "ls \<noteq> []"
  shows "scan_imports True (join_nl (take k ls @ map import_stmt xs @ drop k ls))
         = scan_imports True (join_nl (take k ls)) @ xs @ scan_imports True (join_nl (drop k ls))"
proof -
  let ?B = "map import_stmt xs"
  have B: "?B \<noteq> []" using assms(2) by simp
  have cx: "cap_ok (hd xs)" using assms(1,2) by (cases xs) auto
  have tail: "scan_imports True (join_nl (?B @ drop k ls))
      = xs @ scan_imports True (join_nl (drop k ls))"
  proof (cases "drop k ls = []")
    case True
    then show ?thesis using scan_block[OF assms(1,2), of "[]"] by simp
  next
    case False
    have "join_nl (?B @ drop k ls) = join_nl ?B @ CHR ''\<newline>'' # join_nl (drop k ls)"
      by (rule join_nl_append[OF B False])
    then show ?thesis
      using scan_block[OF assms(1,2)] by (simp add: line_terminator_newline)
  qed
  show ?thesis
  proof (cases "take k ls = []")
    case True
    have "scan_imports True (join_nl []) = []" by simp
    then show ?thesis using tail by (simp only: True append_Nil)
  next
    case False
    have ne: "?B @ drop k ls \<noteq> []" using B by simp
    have j: "join_nl (take k ls @ ?B @ drop k ls)
        = join_nl (take k ls) @ CHR ''\<newline>'' # join_nl (?B @ drop k ls)"
      by (rule join_nl_append[OF False ne])
    obtain r where r: "join_nl (?B @ drop k ls) = import_stmt (hd xs) @ r"
    proof (cases "drop k ls = []")
      case True
      then show ?thesis using block_head[OF assms(2), of "[]"] that by auto
    next
      case F: False
      have "join_nl (?B @ drop k ls) = join_nl ?B @ CHR ''\<newline>'' # join_nl (drop k ls)"
        by (rule join_nl_append[OF B F])
      then show ?thesis using block_head[OF assms(2), of "CHR ''\<newline>'' # join_nl (drop k ls)"] that
        by auto
    qed
    show ?thesis
      unfolding j r using scan_split[OF cx, of True "join_nl (take k ls)" r] tail r by simp
  qed
qed

subsection \<open>Extracted directives are well formed\<close>

lemma import_tail_cap: "import_tail s = Some (g, r) \<Longrightarrow> cap_ok g"
proof -
  assume a: "import_tail s = Some (g, r)"
  let ?t = "takeWhile is_word_or_dot s"
  have all: "list_all is_word_or_dot ?t" by (simp add: list_all_iff) (meson set_takeWhileD)
  from a have ne: "?t \<noteq> []" by (auto simp: import_tail_def Let_def split: if_splits)
  from a consider "g = ?t" | "g = ?t @ ''*''" "2 \<le> length ?t" "last ?t = CHR ''.''"
    by (auto simp: import_tail_def Let_def split: if_splits option.splits)
  then show ?thesis
  proof cases
    case 1
    then show ?thesis using all ne by (simp add: cap_ok_def)
  next
    case 2
    then show ?thesis using all unfolding cap_ok_def by blast
  qed
qed

lemma import_match_cap: "import_match s = Some (g, r) \<Longrightarrow> cap_ok g"
  by (auto simp: import_match_def split: option.splits dest: import_tail_cap)

lemma scan_caps: "list_all cap_ok (scan_imports b s)"
proof (induction b s rule: scan_imports.induct)
  case (1 bol)
  show ?case by simp
next
  case (2 bol c cs)
  show ?case
  proof (cases "if bol then import_match (c # cs) else None")
    case None
    then show ?thesis using 2(1)[OF None] scan_imports_Cons_None[OF None] by simp
  next
    case (Some m)
    obtain g r0 where m: "m = (g, r0)" by (cases m) auto
    from Some m have bol: bol and im: "import_match (c # cs) = Some (g, r0)"
      by (auto split: if_splits)
    have "cap_ok g" using im by (rule import_match_cap)
    then show ?thesis
      using 2(2)[OF Some m[symmetric]] scan_imports_Cons_Some[OF bol im] by simp
  qed
qed

lemma split_nl_nonempty: "split_nl s \<noteq> []"
  by (induction s) (auto split: list.splits)

lemma join_split: "join_nl (split_nl s) = s"
proof (induction s)
  case Nil
  show ?case by simp
next
  case (Cons c s)
  obtain l ls where sp: "split_nl s = l # ls" using split_nl_nonempty[of s] by (cases "split_nl s") auto
  show ?case
  proof (cases "c = CHR ''\<newline>''")
    case True
    then show ?thesis using Cons sp by simp
  next
    case False
    have "join_nl ((c # l) # ls) = c # join_nl (l # ls)" by (cases ls) auto
    then show ?thesis using False Cons sp by simp
  qed
qed

subsection \<open>Matching in front of a line that ends its statement\<close>

lemma dropWhile_semi:
  assumes "CHR '';'' \<in> set t" and "\<not> P (CHR '';'')"
  shows "dropWhile P (t @ u) = dropWhile P t @ u" and "takeWhile P (t @ u) = takeWhile P t"
    and "CHR '';'' \<in> set (dropWhile P t)"
  using assms by (induction t) auto

lemma lit_semi:
  assumes "CHR '';'' \<in> set t" and "CHR '';'' \<notin> set k"
  shows "lit k (t @ u) = map_option (\<lambda>r. r @ u) (lit k t)"
    and "lit k t = Some r \<Longrightarrow> CHR '';'' \<in> set r"
proof -
  have p: "prefix k (t @ u) \<longleftrightarrow> prefix k t"
  proof
    assume a: "prefix k (t @ u)"
    show "prefix k t"
    proof (cases "length k \<le> length t")
      case True
      with a show ?thesis by (metis prefix_length_prefix prefixI)
    next
      case False
      have "prefix t (t @ u)" by simp
      with a False have "prefix t k" by (metis nat_le_linear prefix_length_prefix)
      then have "set t \<subseteq> set k" by (auto simp: prefix_def)
      with assms show ?thesis by blast
    qed
  next
    assume "prefix k t"
    then show "prefix k (t @ u)" by (simp add: prefix_prefix)
  qed
  show "lit k (t @ u) = map_option (\<lambda>r. r @ u) (lit k t)"
    using p by (auto simp: lit_def dest: prefix_length_le)
  show "lit k t = Some r \<Longrightarrow> CHR '';'' \<in> set r"
  proof -
    assume "lit k t = Some r"
    then have "t = k @ r" by (auto simp: lit_def prefix_def split: if_splits)
    with assms show ?thesis by auto
  qed
qed

lemma lit1_append: "t \<noteq> [] \<Longrightarrow> lit [c] (t @ u) = map_option (\<lambda>r. r @ u) (lit [c] t)"
  by (cases t) (auto simp: lit_def)

lemma semicolon_semi:
  assumes "CHR '';'' \<in> set t"
  shows "semicolon (t @ u) = map_option (\<lambda>r. r @ u) (semicolon t)"
proof -
  have "skip_ws (t @ u) = skip_ws t @ u" and "CHR '';'' \<in> set (skip_ws t)"
    unfolding skip_ws_def using dropWhile_semi[where P = is_space, OF assms not_space_semicolon] by auto
  moreover from this have "skip_ws t \<noteq> []" by force
  ultimately show ?thesis by (simp add: semicolon_def lit1_append)
qed

lemma import_tail_semi:
  assumes "CHR '';'' \<in> set t"
  shows "import_tail (t @ u) = map_option (\<lambda>(g, r). (g, r @ u)) (import_tail t)"
proof -
  let ?r = "dropWhile is_word_or_dot t"
  have t: "takeWhile is_word_or_dot (t @ u) = takeWhile is_word_or_dot t"
    and d: "dropWhile is_word_or_dot (t @ u) = ?r @ u"
    and r: "CHR '';'' \<in> set ?r"
    using dropWhile_semi[where P = is_word_or_dot, OF assms not_wdot_semicolon] by auto
  have ne: "?r \<noteq> []"
  proof
    assume "?r = []"
    with r show False by simp
  qed
  have s1: "semicolon (?r @ u) = map_option (\<lambda>r. r @ u) (semicolon ?r)"
    by (rule semicolon_semi[OF r])
  have st: "lit ''*'' (?r @ u) = map_option (\<lambda>r. r @ u) (lit ''*'' ?r)"
    by (rule lit1_append[OF ne])
  have s2: "semicolon (r1 @ u) = map_option (\<lambda>r. r @ u) (semicolon r1)"
    if "lit ''*'' ?r = Some r1" for r1
  proof -
    have "CHR '';'' \<in> set r1" using lit_semi(2)[OF r _ that] by simp
    then show ?thesis by (rule semicolon_semi)
  qed
  show ?thesis
    unfolding import_tail_def t d Let_def
    by (auto simp: s1 st s2 option.map_comp comp_def split: option.splits)
qed

lemma ws_plus_semi:
  assumes "CHR '';'' \<in> set t"
  shows "ws_plus (t @ u) = map_option (\<lambda>r. r @ u) (ws_plus t)"
    and "ws_plus t = Some r \<Longrightarrow> CHR '';'' \<in> set r"
proof -
  obtain c cs where t: "t = c # cs" using assms by (cases t) auto
  show "ws_plus (t @ u) = map_option (\<lambda>r. r @ u) (ws_plus t)"
  proof (cases "is_space c")
    case True
    then have "CHR '';'' \<in> set cs" using assms t not_space_semicolon by auto
    from dropWhile_semi(1)[where P = is_space, OF this not_space_semicolon] True t show ?thesis
      by (simp add: ws_plus_def)
  next
    case False
    then show ?thesis using t by (simp add: ws_plus_def)
  qed
  show "ws_plus t = Some r \<Longrightarrow> CHR '';'' \<in> set r"
  proof -
    assume a: "ws_plus t = Some r"
    then have sp: "is_space c" and r: "r = dropWhile is_space cs"
      using t by (auto simp: ws_plus_def split: if_splits)
    then have "CHR '';'' \<in> set cs" using assms t not_space_semicolon by auto
    from dropWhile_semi(3)[where P = is_space, OF this not_space_semicolon] r show ?thesis by simp
  qed
qed

lemma import_match_semi:
  assumes "CHR '';'' \<in> set t"
  shows "import_match (t @ u) = map_option (\<lambda>(g, r). (g, r @ u)) (import_match t)"
proof -
  have sk: "skip_ws (t @ u) = skip_ws t @ u" and s1: "CHR '';'' \<in> set (skip_ws t)"
    unfolding skip_ws_def using dropWhile_semi[where P = is_space, OF assms not_space_semicolon] by auto
  have l: "lit ''import'' (skip_ws t @ u) = map_option (\<lambda>r. r @ u) (lit ''import'' (skip_ws t))"
    by (rule lit_semi(1)[OF s1]) simp
  show ?thesis
  proof (cases "lit ''import'' (skip_ws t)")
    case None
    then show ?thesis by (simp add: import_match_def sk l)
  next
    case (Some r0)
    have s2: "CHR '';'' \<in> set r0" using lit_semi(2)[OF s1 _ Some] by simp
    show ?thesis
    proof (cases "ws_plus r0")
      case None
      then show ?thesis using Some ws_plus_semi(1)[OF s2, of u] by (simp add: import_match_def sk l)
    next
      case (Some r1)
      have s3: "CHR '';'' \<in> set r1" using ws_plus_semi(2)[OF s2 Some] .
      show ?thesis
        using \<open>lit ''import'' (skip_ws t) = Some r0\<close> Some ws_plus_semi(1)[OF s2, of u]
          import_tail_semi[OF s3, of u]
        by (simp add: import_match_def sk l)
    qed
  qed
qed


lemma import_match_Nil: "import_match [] = None"
  by (simp add: import_match_def skip_ws_def lit_def)

lemma scan_True_Some:
  "import_match q = Some (g, r) \<Longrightarrow> scan_imports True q = g # scan_imports False r"
  by (cases q) (simp_all add: import_match_Nil)

lemma import_match_ws_prefix:
  "list_all is_space w \<Longrightarrow> import_match (w @ q) = import_match q"
  by (simp add: import_match_def skip_ws_def dropWhile_all_append)

lemma scan_ws_newline:
  "list_all is_space w \<Longrightarrow> scan_imports b (w @ CHR ''\<newline>'' # q) = scan_imports True q"
proof (induction w arbitrary: b)
  case Nil
  show ?case
  proof (cases "if b then import_match (CHR ''\<newline>'' # q) else None")
    case None
    then show ?thesis
      using scan_imports_Cons_None[OF None] by (simp add: line_terminator_newline)
  next
    case (Some m)
    obtain g r where m: "m = (g, r)" by (cases m) auto
    from Some m have b: b and im: "import_match (CHR ''\<newline>'' # q) = Some (g, r)"
      by (auto split: if_splits)
    have "import_match q = Some (g, r)"
      using im import_match_ws_prefix[of "''\<newline>''" q] by (simp add: space_newline)
    then show ?thesis using scan_imports_Cons_Some[OF b im] scan_True_Some by simp
  qed
next
  case (Cons a w)
  have all: "list_all is_space ((a # w) @ ''\<newline>'')" using Cons.prems by (simp add: space_newline)
  have app: "(a # w) @ CHR ''\<newline>'' # q = a # (w @ CHR ''\<newline>'' # q)" by simp
  show ?case
  proof (cases "if b then import_match (a # (w @ CHR ''\<newline>'' # q)) else None")
    case None
    from Cons.prems have "list_all is_space w" by simp
    from Cons.IH[OF this] scan_imports_Cons_None[OF None] show ?thesis by (simp only: app)
  next
    case (Some m)
    obtain g r where m: "m = (g, r)" by (cases m) auto
    from Some m have b: b and im: "import_match (a # (w @ CHR ''\<newline>'' # q)) = Some (g, r)"
      by (auto split: if_splits)
    have "import_match q = Some (g, r)"
      using im import_match_ws_prefix[OF all, of q] by simp
    then show ?thesis using scan_imports_Cons_Some[OF b im] scan_True_Some by (simp only: app)
  qed
qed

lemma suffix_ws_plus: "ws_plus s = Some r \<Longrightarrow> suffix r s"
proof -
  assume "ws_plus s = Some r"
  then obtain c cs where s: "s = c # cs" and r: "r = dropWhile is_space cs"
    by (cases s) (auto simp: ws_plus_def split: if_splits)
  have "suffix r cs" unfolding r by (rule suffix_dropWhile)
  then show ?thesis unfolding s by (rule suffix_ConsI)
qed

lemma suffix_lit: "lit k s = Some r \<Longrightarrow> suffix r s"
  by (auto simp: lit_def suffix_drop split: if_splits)

lemma suffix_semicolon: "semicolon s = Some r \<Longrightarrow> suffix r s"
proof -
  assume "semicolon s = Some r"
  then have "suffix r (skip_ws s)" unfolding semicolon_def by (rule suffix_lit)
  moreover have "suffix (skip_ws s) s" unfolding skip_ws_def by (rule suffix_dropWhile)
  ultimately show ?thesis by (rule suffix_order.trans)
qed

lemma suffix_import_tail: "import_tail s = Some (g, r) \<Longrightarrow> suffix r s"
proof -
  assume a: "import_tail s = Some (g, r)"
  have d: "suffix (dropWhile is_word_or_dot s) s" by (rule suffix_dropWhile)
  from a consider "semicolon (dropWhile is_word_or_dot s) = Some r"
    | r1 where "lit ''*'' (dropWhile is_word_or_dot s) = Some r1" "semicolon r1 = Some r"
    by (auto simp: import_tail_def Let_def split: if_splits option.splits)
  then show ?thesis
  proof cases
    case 1
    from suffix_semicolon[OF this] d show ?thesis by (rule suffix_order.trans)
  next
    case 2
    from suffix_semicolon[OF 2(2)] suffix_lit[OF 2(1)] have "suffix r (dropWhile is_word_or_dot s)"
      by (rule suffix_order.trans)
    then show ?thesis using d by (rule suffix_order.trans)
  qed
qed

lemma suffix_import_match: "import_match s = Some (g, r) \<Longrightarrow> suffix r s"
proof -
  assume "import_match s = Some (g, r)"
  then obtain r0 r1 where r0: "lit ''import'' (skip_ws s) = Some r0"
    and r1: "ws_plus r0 = Some r1" and t: "import_tail r1 = Some (g, r)"
    by (auto simp: import_match_def split: option.splits)
  have "suffix r r1" by (rule suffix_import_tail[OF t])
  also have "suffix r1 r0" by (rule suffix_ws_plus[OF r1])
  also have "suffix r0 (skip_ws s)" by (rule suffix_lit[OF r0])
  also have "suffix (skip_ws s) s" unfolding skip_ws_def by (rule suffix_dropWhile)
  finally show ?thesis .
qed

lemma settled_suffix: "settled p \<Longrightarrow> suffix s p \<Longrightarrow> settled s"
  unfolding settled_def using suffix_order.trans by blast

lemma settled_self: "settled p \<Longrightarrow> CHR '';'' \<in> set p \<or> list_all is_space p"
  unfolding settled_def by blast

lemma scan_settled:
  "settled p \<Longrightarrow> scan_imports b (p @ CHR ''\<newline>'' # q) = scan_imports b p @ scan_imports True q"
proof (induction b p rule: scan_imports.induct)
  case (1 bol)
  show ?case using scan_ws_newline[of "[]" bol q] by simp
next
  case (2 bol c cs)
  have app: "(c # cs) @ CHR ''\<newline>'' # q = c # (cs @ CHR ''\<newline>'' # q)" by simp
  show ?case
  proof (cases "list_all is_space (c # cs)")
    case True
    then show ?thesis using scan_ws_newline[OF True, of bol q] scan_blank[OF True, of bol] by simp
  next
    case False
    with 2(3) have semi: "CHR '';'' \<in> set (c # cs)" using settled_self by blast
    have im: "import_match (c # (cs @ CHR ''\<newline>'' # q))
        = map_option (\<lambda>(g, r). (g, r @ CHR ''\<newline>'' # q)) (import_match (c # cs))"
      using import_match_semi[OF semi, of "CHR ''\<newline>'' # q"] by simp
    show ?thesis
    proof (cases "if bol then import_match (c # cs) else None")
      case None
      have n: "(if bol then import_match (c # (cs @ CHR ''\<newline>'' # q)) else None) = None"
        using None im by (auto split: if_splits)
      have "settled cs" using 2(3) settled_suffix[of "c # cs" cs] by (simp add: suffix_ConsI)
      from 2(1)[OF None this] scan_imports_Cons_None[OF n] scan_imports_Cons_None[OF None]
      show ?thesis by (simp only: app)
    next
      case (Some m)
      obtain g r0 where m: "m = (g, r0)" by (cases m) auto
      from Some m have bol: bol and i0: "import_match (c # cs) = Some (g, r0)"
        by (auto split: if_splits)
      have i1: "import_match (c # (cs @ CHR ''\<newline>'' # q)) = Some (g, r0 @ CHR ''\<newline>'' # q)"
        using im i0 by simp
      have "settled r0" using 2(3) settled_suffix suffix_import_match[OF i0] by blast
      from 2(2)[OF Some m[symmetric] this]
        scan_imports_Cons_Some[OF bol i1] scan_imports_Cons_Some[OF bol i0]
      show ?thesis by (simp only: app append_Cons)
    qed
  qed
qed

lemma settled_statement:
  assumes "list_all is_space w"
  shows "settled (a @ CHR '';'' # w)"
  unfolding settled_def
proof (intro allI impI)
  fix s assume "suffix s (a @ CHR '';'' # w)"
  then consider "suffix s w" | zs where "s = zs @ CHR '';'' # w"
    by (auto simp: suffix_append suffix_Cons)
  then show "CHR '';'' \<in> set s \<or> list_all is_space s"
  proof cases
    case 1
    then have "set s \<subseteq> set w" by (rule set_mono_suffix)
    then show ?thesis using assms by (auto simp: list_all_iff)
  next
    case 2
    then show ?thesis by simp
  qed
qed

lemma ends_statement_split:
  "ends_statement l \<Longrightarrow> \<exists>a w. l = a @ CHR '';'' # w \<and> list_all is_space w"
proof -
  assume "ends_statement l"
  then obtain rest where d: "dropWhile is_space (rev l) = CHR '';'' # rest"
    by (auto simp: ends_statement_def prefix_def)
  have "rev l = takeWhile is_space (rev l) @ CHR '';'' # rest"
    using takeWhile_dropWhile_id[of is_space "rev l"] d by simp
  then have "l = rev rest @ CHR '';'' # rev (takeWhile is_space (rev l))"
    by (metis rev_append rev.simps(2) rev_rev_ident append.assoc append_Cons append_Nil)
  moreover have "list_all is_space (rev (takeWhile is_space (rev l)))"
    by (simp add: list_all_iff) (meson set_takeWhileD)
  ultimately show ?thesis by blast
qed

lemma join_nl_snoc: "\<exists>a. join_nl (ls @ [l]) = a @ l"
proof (cases "ls = []")
  case True
  then show ?thesis by simp
next
  case False
  then have "join_nl (ls @ [l]) = (join_nl ls @ ''\<newline>'') @ l"
    using join_nl_append[of ls "[l]"] by simp
  then show ?thesis by blast
qed

lemma statement_not_crossed:
  assumes "statement_before_insertion e"
  shows "no_directive_across_insertion e"
proof -
  let ?ls = "split_nl e" and ?k = "insertIndex e"
  have e: "join_nl (take ?k ?ls @ drop ?k ?ls) = e" by (simp add: join_split)
  show ?thesis
  proof (cases "take ?k ?ls = [] \<or> drop ?k ?ls = []")
    case True
    then show ?thesis
    proof
      assume t: "take ?k ?ls = []"
      then have "drop ?k ?ls = ?ls" by (metis append_Nil append_take_drop_id)
      then have a: "text_after e = e" by (simp only: text_after_def join_split)
      have b: "text_before e = []" by (simp only: text_before_def t join_nl.simps)
      show ?thesis
        by (simp only: no_directive_across_insertion_def a b extractImports_def
            scan_imports.simps append_Nil)
    next
      assume d: "drop ?k ?ls = []"
      then have "take ?k ?ls = ?ls" by (metis append_Nil2 append_take_drop_id)
      then have b: "text_before e = e" by (simp only: text_before_def join_split)
      have a: "text_after e = []" by (simp only: text_after_def d join_nl.simps)
      show ?thesis
        by (simp only: no_directive_across_insertion_def a b extractImports_def
            scan_imports.simps append_Nil2)
    qed
  next
    case False
    then have t: "take ?k ?ls \<noteq> []" and d: "drop ?k ?ls \<noteq> []" by simp_all
    from t have k0: "0 < ?k" by (cases ?k) auto
    from d have kl: "?k < length ?ls" by simp
    from k0 kl have "take ?k ?ls = take (?k - 1) ?ls @ [?ls ! (?k - 1)]"
      using take_Suc_conv_app_nth[of "?k - 1" ?ls] by simp
    then obtain a where a: "join_nl (take ?k ?ls) = a @ ?ls ! (?k - 1)"
      using join_nl_snoc[of "take (?k - 1) ?ls" "?ls ! (?k - 1)"] by auto
    from assms k0 have "ends_statement (?ls ! (?k - 1))"
      by (simp add: statement_before_insertion_def)
    from ends_statement_split[OF this] obtain b w where
      "?ls ! (?k - 1) = b @ CHR '';'' # w" "list_all is_space w" by blast
    then have "settled (join_nl (take ?k ?ls))"
      using a settled_statement[of w "a @ b"] by simp
    from scan_settled[OF this, of True "join_nl (drop ?k ?ls)"]
    have "scan_imports True (join_nl (take ?k ?ls) @ CHR ''\<newline>'' # join_nl (drop ?k ?ls))
        = scan_imports True (join_nl (take ?k ?ls)) @ scan_imports True (join_nl (drop ?k ?ls))" .
    moreover have "join_nl (take ?k ?ls) @ CHR ''\<newline>'' # join_nl (drop ?k ?ls) = e"
      using join_nl_append[OF t d] e by simp
    ultimately show ?thesis
      by (simp add: no_directive_across_insertion_def text_before_def text_after_def
          extractImports_def)
  qed
qed

section \<open>Claims about the directive merger\<close>

lemma imports_to_add_caps: "list_all cap_ok (importsToAdd e f)"
  using scan_caps[of True f] by (simp add: importsToAdd_def extractImports_def list_all_iff)

lemma extract_merged:
  assumes "importsToAdd e f \<noteq> []"
  shows "extractImports (mergeImports e f)
         = extractImports (text_before e) @ importsToAdd e f @ extractImports (text_after e)"
  using assms
    scan_merged[OF imports_to_add_caps assms split_nl_nonempty[of e], where k = "insertIndex e"]
  by (simp add: mergeImports_def splice_at_def extractImports_def text_before_def text_after_def)

lemma second_merge_adds_nothing:
  assumes "no_directive_across_insertion e" and "importsToAdd e f \<noteq> []"
  shows "importsToAdd (mergeImports e f) f = []"
proof -
  have "set (extractImports (mergeImports e f)) = set (extractImports e) \<union> set (importsToAdd e f)"
    using extract_merged[OF assms(2)] assms(1)
    by (auto simp: no_directive_across_insertion_def)
  then show ?thesis
    by (auto simp: importsToAdd_def filter_empty_conv)
qed

lemma typical_file_merged:
  "mergeImports ''package p;\<newline>import a.B;\<newline>import c.D;\<newline>\<newline>public class A {\<newline>}''
      ''import c.D;\<newline>import x.Y;\<newline>import z.*;''
   = ''package p;\<newline>import a.B;\<newline>import c.D;\<newline>import x.Y;\<newline>import z.*;\<newline>\<newline>public class A {\<newline>}''"
  by code_simp

lemma typical_file_distinct:
  "distinct (extractImports
      ''package p;\<newline>import a.B;\<newline>import c.D;\<newline>\<newline>public class A {\<newline>}'')
   \<and> distinct (extractImports ''import c.D;\<newline>import x.Y;\<newline>import z.*;'')"
  by code_simp

lemma typical_file_to_add:
  "importsToAdd ''package p;\<newline>import a.B;\<newline>import c.D;\<newline>\<newline>public class A {\<newline>}''
      ''import c.D;\<newline>import x.Y;\<newline>import z.*;''
   = [''x.Y'', ''z.*'']"
  by code_simp

lemma typical_file_has_import:
  "list_ex import_line
     (head_lines
        (split_nl ''package p;\<newline>import a.B;\<newline>import c.D;\<newline>\<newline>public class A {\<newline>}''))"
  by code_simp

lemma typical_file_index:
  "insertIndex ''package p;\<newline>import a.B;\<newline>import c.D;\<newline>\<newline>public class A {\<newline>}'' = 3"
  by code_simp

lemma merge_class_pattern_examples:
  "merge_class_line ''public class A {'' \<and> merge_class_line ''class A {''
   \<and> \<not> merge_class_line ''public abstract class S {''
   \<and> \<not> merge_class_line ''final class A {''"
  by code_simp

text \<open>
  C2 (as stated: the new directive lines go immediately after the last existing
  directive line, and immediately before the class line when the existing text has no
  directive line). In the first text below the existing file has no directive; the
  class line is its third line, and the code puts the new line at the very top, in
  front of the package line. In the second text the directives of the existing file are
  \<open>a.B\<close> and \<open>c.D\<close>, the last of them on the fourth line, and the new line follows the
  first line: the loop stops at the class line.
\<close>

theorem merge_position_differs:
  "mergeImports ''package demo;\<newline>\<newline>public class A {\<newline>}'' ''import java.util.List;''
     = ''import java.util.List;\<newline>package demo;\<newline>\<newline>public class A {\<newline>}''
   \<and> extractImports ''import a.B;\<newline>class A {\<newline>}\<newline>import c.D;'' = [''a.B'', ''c.D'']
   \<and> mergeImports ''import a.B;\<newline>class A {\<newline>}\<newline>import c.D;'' ''import x.Y;''
     = ''import a.B;\<newline>import x.Y;\<newline>class A {\<newline>}\<newline>import c.D;''"
  by code_simp

text \<open>
  C2 (amended): take the lines of the existing text before its first line that matches
  the merger's class pattern \<open>/^\s*(?:public\s+)?class\s+/\<close> (all its lines when none
  matches; a declaration such as \<open>public abstract class S {\<close> does not match that
  pattern and does not end the search). When the fragment has a directive that the
  existing text lacks and one of those lines matches the import-line pattern
  \<open>/^\s*import\s+/\<close>, the new directive lines are spliced in immediately after the last
  of those lines that matches it: the line before the insertion index matches the import
  pattern, none of those lines from the insertion index on does, and the merged text is
  the lines before the index, the lines \<open>import X;\<close> for the new directives in the order
  of the fragment, and the lines from the index on. Lines behind the first line that
  matches the class pattern are not looked at. What happens when none of those lines
  matches the import pattern is not part of this statement.
\<close>

theorem merge_after_last_import:
  assumes "importsToAdd e f \<noteq> []"
    and "list_ex import_line (head_lines (split_nl e))"
  shows "0 < insertIndex e
     \<and> insertIndex e \<le> length (head_lines (split_nl e))
     \<and> import_line (split_nl e ! (insertIndex e - 1))
     \<and> \<not> list_ex import_line (drop (insertIndex e) (head_lines (split_nl e)))
     \<and> mergeImports e f =
         join_nl (take (insertIndex e) (split_nl e) @ map import_stmt (importsToAdd e f)
                    @ drop (insertIndex e) (split_nl e))"
proof -
  from find_insert_some[of "split_nl e" 0 0] assms(2)
  obtain j where "j < length (head_lines (split_nl e))"
    "insertIndex e = Suc j" "import_line (split_nl e ! j)"
    "\<not> list_ex import_line (drop (Suc j) (head_lines (split_nl e)))"
    by (auto simp: insertIndex_def)
  then show ?thesis
    using assms(1) by (simp add: mergeImports_def splice_at_def)
qed

theorem merge_after_last_import_witness:
  "importsToAdd ''package p;\<newline>import a.B;\<newline>import c.D;\<newline>\<newline>public class A {\<newline>}''
      ''import c.D;\<newline>import x.Y;\<newline>import z.*;'' = [''x.Y'', ''z.*'']
   \<and> list_ex import_line (head_lines (split_nl ''package p;\<newline>import a.B;\<newline>import c.D;\<newline>\<newline>public class A {\<newline>}''))
   \<and> insertIndex ''package p;\<newline>import a.B;\<newline>import c.D;\<newline>\<newline>public class A {\<newline>}'' = 3
   \<and> import_line (split_nl ''package p;\<newline>import a.B;\<newline>import c.D;\<newline>\<newline>public class A {\<newline>}'' ! 2)
   \<and> mergeImports ''package p;\<newline>import a.B;\<newline>import c.D;\<newline>\<newline>public class A {\<newline>}''
      ''import c.D;\<newline>import x.Y;\<newline>import z.*;''
   = ''package p;\<newline>import a.B;\<newline>import c.D;\<newline>import x.Y;\<newline>import z.*;\<newline>\<newline>public class A {\<newline>}''"
proof -
  let ?e = "''package p;\<newline>import a.B;\<newline>import c.D;\<newline>\<newline>public class A {\<newline>}''"
  let ?f = "''import c.D;\<newline>import x.Y;\<newline>import z.*;''"
  have ne: "importsToAdd ?e ?f \<noteq> []" using typical_file_to_add by simp
  from merge_after_last_import[OF ne typical_file_has_import] typical_file_to_add
    typical_file_has_import typical_file_index typical_file_merged
  show ?thesis by simp
qed

text \<open>
  C4 (as stated: merging the same fragment twice gives the directive lines of merging
  once, and a merge never introduces duplicate directive lines). In the first existing
  text the semicolon of the import stands on the next line; the merge splices the new
  line in between, the split directive is no longer found, and the second merge adds it
  again: the two results and their directives differ. In the second pair the fragment
  repeats a directive the existing text lacks, and the merge inserts it twice.
\<close>

theorem merge_twice_differs:
  "mergeImports
     (mergeImports ''import java.util.List\<newline>;\<newline>public class A {\<newline>}''
        ''import java.util.List;\<newline>import java.util.Map;'')
     ''import java.util.List;\<newline>import java.util.Map;''
   \<noteq> mergeImports ''import java.util.List\<newline>;\<newline>public class A {\<newline>}''
        ''import java.util.List;\<newline>import java.util.Map;''
   \<and> extractImports
        (mergeImports ''import java.util.List\<newline>;\<newline>public class A {\<newline>}''
           ''import java.util.List;\<newline>import java.util.Map;'')
      = [''java.util.Map'']
   \<and> extractImports
        (mergeImports
           (mergeImports ''import java.util.List\<newline>;\<newline>public class A {\<newline>}''
              ''import java.util.List;\<newline>import java.util.Map;'')
           ''import java.util.List;\<newline>import java.util.Map;'')
      = [''java.util.Map'', ''java.util.List'']
   \<and> extractImports ''public class A {\<newline>}'' = []
   \<and> extractImports (mergeImports ''public class A {\<newline>}'' ''import a.B;\<newline>import a.B;'')
      = [''a.B'', ''a.B'']"
  by code_simp

text \<open>
  C4 (amended): when no directive of the fragment is missing from the existing text, the
  merge returns the existing text unchanged. Otherwise the directives of the merged text
  are those of the lines before the insertion index, the added directives, and those of
  the lines from the index on. When the new lines go to the top or behind a line that
  ends with a semicolon (white space apart), no directive of the existing text runs
  across the insertion point. Whenever none does, merging the same fragment a second
  time changes nothing; and when in addition neither the existing text nor the fragment
  repeats a directive, the merged text repeats none.
\<close>

theorem merge_twice:
  "(importsToAdd e f = [] \<longrightarrow> mergeImports e f = e)
   \<and> (importsToAdd e f \<noteq> [] \<longrightarrow>
        extractImports (mergeImports e f)
          = extractImports (text_before e) @ importsToAdd e f @ extractImports (text_after e))
   \<and> (statement_before_insertion e \<longrightarrow> no_directive_across_insertion e)
   \<and> (no_directive_across_insertion e \<longrightarrow>
        mergeImports (mergeImports e f) f = mergeImports e f)
   \<and> (no_directive_across_insertion e \<and> distinct (extractImports e)
        \<and> distinct (extractImports f) \<longrightarrow> distinct (extractImports (mergeImports e f)))"
proof (cases "importsToAdd e f = []")
  case True
  then have "mergeImports e f = e" by (simp add: mergeImports_def)
  then show ?thesis using True statement_not_crossed[of e] by (simp add: mergeImports_def)
next
  case False
  have ex: "extractImports (mergeImports e f)
         = extractImports (text_before e) @ importsToAdd e f @ extractImports (text_after e)"
    by (rule extract_merged[OF False])
  have idem: "mergeImports (mergeImports e f) f = mergeImports e f"
    if "no_directive_across_insertion e"
    using second_merge_adds_nothing[OF that False]
    by (simp add: mergeImports_def[of "mergeImports e f"])
  have dist: "distinct (extractImports (mergeImports e f))"
    if h: "no_directive_across_insertion e" and de: "distinct (extractImports e)"
      and df: "distinct (extractImports f)"
  proof -
    have 1: "distinct (extractImports (text_before e) @ extractImports (text_after e))"
      using h de by (simp add: no_directive_across_insertion_def)
    have 2: "distinct (importsToAdd e f)" using df by (simp add: importsToAdd_def)
    have 3: "set (importsToAdd e f) \<inter>
        (set (extractImports (text_before e)) \<union> set (extractImports (text_after e))) = {}"
      using h by (auto simp: importsToAdd_def no_directive_across_insertion_def)
    show ?thesis unfolding ex using 1 2 3 by auto
  qed
  show ?thesis using False ex idem dist statement_not_crossed[of e] by blast
qed

theorem merge_twice_witness:
  "statement_before_insertion
     ''package p;\<newline>import a.B;\<newline>import c.D;\<newline>\<newline>public class A {\<newline>}''
   \<and> no_directive_across_insertion
     ''package p;\<newline>import a.B;\<newline>import c.D;\<newline>\<newline>public class A {\<newline>}''
   \<and> mergeImports
        (mergeImports ''package p;\<newline>import a.B;\<newline>import c.D;\<newline>\<newline>public class A {\<newline>}''
           ''import c.D;\<newline>import x.Y;\<newline>import z.*;'')
        ''import c.D;\<newline>import x.Y;\<newline>import z.*;''
      = ''package p;\<newline>import a.B;\<newline>import c.D;\<newline>import x.Y;\<newline>import z.*;\<newline>\<newline>public class A {\<newline>}''
   \<and> distinct (extractImports
        (mergeImports ''package p;\<newline>import a.B;\<newline>import c.D;\<newline>\<newline>public class A {\<newline>}''
           ''import c.D;\<newline>import x.Y;\<newline>import z.*;''))"
proof -
  let ?e = "''package p;\<newline>import a.B;\<newline>import c.D;\<newline>\<newline>public class A {\<newline>}''"
  let ?f = "''import c.D;\<newline>import x.Y;\<newline>import z.*;''"
  have s: "statement_before_insertion ?e" by code_simp
  have h: "no_directive_across_insertion ?e"
    and "mergeImports (mergeImports ?e ?f) ?f = mergeImports ?e ?f"
    and "distinct (extractImports (mergeImports ?e ?f))"
    using merge_twice [of ?e ?f] s typical_file_distinct by blast+
  then show ?thesis using s typical_file_merged by simp
qed

section \<open>Claims about the path resolver\<close>

lemma calculator_computed:
  "computedTestPath ''src/main/java/com/example/Calculator.java''
   = ''src/test/java/com/example/CalculatorTest.java''"
  by code_simp

lemma calculator_converted:
  "convertToTestPath ''src/main/java/com/example/Calculator.java''
   = ''src/test/java/com/example/Calculator.java''"
  by code_simp

lemma calculator_name:
  "parse_name ''src/test/java/com/example/Calculator.java'' = ''Calculator''
   \<and> parse_ext ''src/test/java/com/example/Calculator.java'' = ''.java''
   \<and> \<not> endsWith ''Calculator'' ''Test''"
  by code_simp

text \<open>
  C8: without a suggested path, the relative source path
  "src/main/java/com/example/Calculator.java" of a file in a workspace folder resolves
  to "src/test/java/com/example/CalculatorTest.java" in that folder: the conversion
  rewrites \<open>src/main/java\<close> to \<open>src/test/java\<close>, the parsed name \<open>Calculator\<close> does not end
  with \<open>Test\<close>, and \<open>Test\<close> is put in front of the extension \<open>.java\<close>.
\<close>

theorem calculator_test_path:
  "convertToTestPath ''src/main/java/com/example/Calculator.java''
     = ''src/test/java/com/example/Calculator.java''
   \<and> parse_name ''src/test/java/com/example/Calculator.java'' = ''Calculator''
   \<and> parse_ext ''src/test/java/com/example/Calculator.java'' = ''.java''
   \<and> \<not> endsWith ''Calculator'' ''Test''
   \<and> resolveTestPath (Some folder) ''src/main/java/com/example/Calculator.java'' None
     = Inr (folder, ''src/test/java/com/example/CalculatorTest.java'')"
  using calculator_computed calculator_converted calculator_name
  by (simp add: resolveTestPath_def)

end
